theory Spec2Isabelle
  imports Complex_Main "HOL-Library.Monad_Syntax"
begin

section \<open>Numbers\<close>

text \<open>
  Go's \<^verbatim>\<open>float64\<close> is modelled by its value set without rounding: a finite value is a
  real number and arithmetic on finite values is exact; the two infinities and NaN
  follow the IEEE 754 rules that Go implements (an infinity absorbs finite values, opposite
  infinities and \<^verbatim>\<open>0 * Inf\<close> and \<^verbatim>\<open>0 / 0\<close> give NaN, a nonzero finite
  value divided by zero gives an infinity, every comparison with NaN is false).  Rounding,
  overflow, underflow and the sign of zero are outside the model: every zero is the
  positive zero.
\<close>

datatype float64 = Fin real | PInf | NInf | NaN

instantiation float64 :: "{zero, one, plus, uminus, minus, times, inverse, ord}"
begin

definition zero_float64 :: float64 where
  "zero_float64 = Fin 0"

definition one_float64 :: float64 where
  "one_float64 = Fin 1"

fun plus_float64 :: "float64 \<Rightarrow> float64 \<Rightarrow> float64" where
  "plus_float64 NaN _ = NaN"
| "plus_float64 _ NaN = NaN"
| "plus_float64 (Fin a) (Fin b) = Fin (a + b)"
| "plus_float64 PInf NInf = NaN"
| "plus_float64 NInf PInf = NaN"
| "plus_float64 PInf _ = PInf"
| "plus_float64 _ PInf = PInf"
| "plus_float64 NInf _ = NInf"
| "plus_float64 _ NInf = NInf"

fun uminus_float64 :: "float64 \<Rightarrow> float64" where
  "uminus_float64 (Fin a) = Fin (- a)"
| "uminus_float64 PInf = NInf"
| "uminus_float64 NInf = PInf"
| "uminus_float64 NaN = NaN"

definition minus_float64 :: "float64 \<Rightarrow> float64 \<Rightarrow> float64" where
  "minus_float64 x y = x + (- y)"

fun times_float64 :: "float64 \<Rightarrow> float64 \<Rightarrow> float64" where
  "times_float64 NaN _ = NaN"
| "times_float64 _ NaN = NaN"
| "times_float64 (Fin a) (Fin b) = Fin (a * b)"
| "times_float64 PInf (Fin b) = (if 0 < b then PInf else if b < 0 then NInf else NaN)"
| "times_float64 NInf (Fin b) = (if 0 < b then NInf else if b < 0 then PInf else NaN)"
| "times_float64 (Fin a) PInf = (if 0 < a then PInf else if a < 0 then NInf else NaN)"
| "times_float64 (Fin a) NInf = (if 0 < a then NInf else if a < 0 then PInf else NaN)"
| "times_float64 PInf PInf = PInf"
| "times_float64 NInf NInf = PInf"
| "times_float64 PInf NInf = NInf"
| "times_float64 NInf PInf = NInf"

fun divide_float64 :: "float64 \<Rightarrow> float64 \<Rightarrow> float64" where
  "divide_float64 NaN _ = NaN"
| "divide_float64 _ NaN = NaN"
| "divide_float64 (Fin a) (Fin b) =
     (if b \<noteq> 0 then Fin (a / b)
      else if 0 < a then PInf else if a < 0 then NInf else NaN)"
| "divide_float64 (Fin a) PInf = Fin 0"
| "divide_float64 (Fin a) NInf = Fin 0"
| "divide_float64 PInf (Fin b) = (if 0 \<le> b then PInf else NInf)"
| "divide_float64 NInf (Fin b) = (if 0 \<le> b then NInf else PInf)"
| "divide_float64 _ _ = NaN"

definition inverse_float64 :: "float64 \<Rightarrow> float64" where
  "inverse_float64 x = divide (Fin 1) x"

fun less_float64 :: "float64 \<Rightarrow> float64 \<Rightarrow> bool" where
  "less_float64 NaN _ = False"
| "less_float64 _ NaN = False"
| "less_float64 (Fin a) (Fin b) = (a < b)"
| "less_float64 NInf NInf = False"
| "less_float64 NInf _ = True"
| "less_float64 PInf _ = False"
| "less_float64 _ PInf = True"
| "less_float64 _ NInf = False"

fun less_eq_float64 :: "float64 \<Rightarrow> float64 \<Rightarrow> bool" where
  "less_eq_float64 NaN _ = False"
| "less_eq_float64 _ NaN = False"
| "less_eq_float64 (Fin a) (Fin b) = (a \<le> b)"
| "less_eq_float64 NInf _ = True"
| "less_eq_float64 _ PInf = True"
| "less_eq_float64 PInf _ = False"
| "less_eq_float64 _ NInf = False"

instance ..

end

text \<open>Go's \<^verbatim>\<open>==\<close> and \<^verbatim>\<open>!=\<close> on float64: NaN is different from everything, itself included.\<close>

fun feq :: "float64 \<Rightarrow> float64 \<Rightarrow> bool" where
  "feq NaN _ = False"
| "feq _ NaN = False"
| "feq x y = (x = y)"

definition fne :: "float64 \<Rightarrow> float64 \<Rightarrow> bool" where
  "fne x y = (\<not> feq x y)"

text \<open>\<^verbatim>\<open>math.Log10\<close>, with the special cases its documentation lists.\<close>

fun Log10 :: "float64 \<Rightarrow> float64" where
  "Log10 (Fin x) = (if 0 < x then Fin (log 10 x) else if x = 0 then NInf else NaN)"
| "Log10 PInf = PInf"
| "Log10 NInf = NaN"
| "Log10 NaN = NaN"

text \<open>\<^verbatim>\<open>math.Inf(1)\<close> is \<^term>\<open>PInf\<close>; \<^verbatim>\<open>float64(n)\<close> of an integer is exact.\<close>

definition float64_of_int :: "int \<Rightarrow> float64" where
  "float64_of_int n = Fin (real_of_int n)"

definition float64_of_len :: "'a list \<Rightarrow> float64" where
  "float64_of_len xs = Fin (real (length xs))"

section \<open>Signal-to-noise ratios (taguchi/snr.go)\<close>

text \<open>\<^verbatim>\<open>type OptimizationGoal int\<close> with the three constants of its \<^verbatim>\<open>iota\<close> block.\<close>

type_synonym OptimizationGoal = int

definition SmallerTheBetter :: OptimizationGoal where
  "SmallerTheBetter = 0"

definition LargerTheBetter :: OptimizationGoal where
  "LargerTheBetter = 1"

definition NominalTheBest :: OptimizationGoal where
  "NominalTheBest = 2"

definition snrSmallerTheBetter :: "float64 list \<Rightarrow> float64" where
  "snrSmallerTheBetter obs =
     (let msd = foldl (\<lambda>msd y. msd + y * y) (Fin 0) obs;
          msd = msd / float64_of_len obs
      in if feq msd (Fin 0) then PInf else Fin (- 10) * Log10 msd)"

definition snrLargerTheBetter :: "float64 list \<Rightarrow> float64" where
  "snrLargerTheBetter obs =
     (let msd = foldl (\<lambda>msd y.
                   let y = (if feq y (Fin 0) then Fin (1 / 10 ^ 10) else y)
                   in msd + Fin 1 / (y * y)) (Fin 0) obs;
          msd = msd / float64_of_len obs
      in Fin (- 10) * Log10 msd)"

definition snrNominalTheBest :: "float64 list \<Rightarrow> float64 \<Rightarrow> float64" where
  "snrNominalTheBest obs target =
     (let msd = foldl (\<lambda>msd y. msd + (y - target) * (y - target)) (Fin 0) obs;
          msd = msd / float64_of_len obs
      in if feq msd (Fin 0) then PInf else Fin (- 10) * Log10 msd)"

text \<open>
  \<^verbatim>\<open>calculateSNR\<close> reads the experiment's \<^verbatim>\<open>Goal\<close> and \<^verbatim>\<open>Target\<close> fields only; they are
  its first two arguments here.
\<close>

definition calculateSNR :: "OptimizationGoal \<Rightarrow> float64 \<Rightarrow> float64 list \<Rightarrow> float64" where
  "calculateSNR goal target obs =
     (if length obs = 0 then Fin 0
      else if goal = SmallerTheBetter then snrSmallerTheBetter obs
      else if goal = LargerTheBetter then snrLargerTheBetter obs
      else if goal = NominalTheBest then snrNominalTheBest obs target
      else Fin 0)"

section \<open>Data model (taguchi/types.go)\<close>

record Factor =
  Name :: string
  Levels :: "float64 list"

text \<open>
  \<^verbatim>\<open>NoiseFactor\<close> is declared as a struct of its own with the same two fields, and the
  generic package calls a control factor \<^verbatim>\<open>ControlFactor\<close>.
\<close>

type_synonym ControlFactor = Factor

type_synonym NoiseFactor = Factor

record Trial =
  ID :: int
  Control :: "string \<rightharpoonup> float64"
  Noise :: "string \<rightharpoonup> float64"

record TrialResult =
  Trial :: Trial
  Observations :: "float64 list"

record ANOVAResult =
  FactorSS :: "string \<rightharpoonup> float64"
  FactorDF :: "string \<rightharpoonup> int"
  FactorMS :: "string \<rightharpoonup> float64"
  FactorF :: "string \<rightharpoonup> float64"
  ErrorSS :: float64
  ErrorDF :: int
  ErrorMS :: float64
  PooledFactors :: "string list"

record AnalysisResult =
  OptimalLevels :: "string \<rightharpoonup> float64"
  SNR :: "string \<rightharpoonup> float64 list"
  MainEffects :: "string \<rightharpoonup> float64 list"
  Contributions :: "string \<rightharpoonup> float64"
  ANOVA :: ANOVAResult

text \<open>
  The experiment.  In taguchi/types.go the \<^verbatim>\<open>Goal\<close> field is an \<^verbatim>\<open>OptimizationGoal\<close>; in
  the generic \<^verbatim>\<open>Experiment[P]\<close> of experiment.go it is an interface value of which only the
  method \<^verbatim>\<open>CalculateSNR\<close> is called, so there the field holds that method, a function
  from observations to a float64.  The type of the field is the record's parameter.
  The generic struct's converter \<^verbatim>\<open>controlAs\<close> is read by \<^verbatim>\<open>Params\<close> only and is left out.
\<close>

record 'g Experiment =
  ControlFactors :: "Factor list"
  NoiseFactors :: "NoiseFactor list"
  Goal :: 'g
  Target :: float64
  OrthogonalArray :: "int list list"
  Results :: "TrialResult list"
  PoolingThreshold :: float64

section \<open>Go's slices, maps and loops\<close>

text \<open>
  An index expression \<^verbatim>\<open>xs[i]\<close> panics when \<^verbatim>\<open>i\<close> is out of range.  A function that
  can panic returns an option, \<^term>\<open>None\<close> being the panic; index out of range is the
  only run-time panic the modelled functions can raise.
\<close>

definition index :: "'a list \<Rightarrow> int \<Rightarrow> 'a option" where
  "index xs i = (if 0 \<le> i \<and> i < int (length xs) then Some (xs ! nat i) else None)"

text \<open>Reading a key that a map does not hold gives the zero value of the element type.\<close>

definition lookup_float :: "(string \<rightharpoonup> float64) \<Rightarrow> string \<Rightarrow> float64" where
  "lookup_float m k = (case m k of None \<Rightarrow> Fin 0 | Some v \<Rightarrow> v)"

definition lookup_int :: "(string \<rightharpoonup> int) \<Rightarrow> string \<Rightarrow> int" where
  "lookup_int m k = (case m k of None \<Rightarrow> 0 | Some v \<Rightarrow> v)"

definition lookup_slice :: "(string \<rightharpoonup> 'a list) \<Rightarrow> string \<Rightarrow> 'a list" where
  "lookup_slice m k = (case m k of None \<Rightarrow> [] | Some v \<Rightarrow> v)"

text \<open>A \<^verbatim>\<open>for ... range\<close> loop whose body can panic: the state is threaded through the
  elements in order and the first panic ends the loop.\<close>

fun foldM :: "('a \<Rightarrow> 's \<Rightarrow> 's option) \<Rightarrow> 'a list \<Rightarrow> 's \<Rightarrow> 's option" where
  "foldM f [] s = Some s"
| "foldM f (x # xs) s = (case f x s of None \<Rightarrow> None | Some s' \<Rightarrow> foldM f xs s')"

text \<open>
  Go leaves the order in which \<^verbatim>\<open>range\<close> visits the keys of a map unspecified.  A function
  that ranges over a map takes the order of each such loop as an argument; the order
  the runtime picks is an enumeration of the map's keys.
\<close>

definition enumerates :: "string list \<Rightarrow> string set \<Rightarrow> bool" where
  "enumerates ks K = (distinct ks \<and> set ks = K)"

section \<open>Trial generation (taguchi/anova.go, second part)\<close>

text \<open>
  The closure \<^verbatim>\<open>helper\<close> of \<^verbatim>\<open>generateNoiseCombinations\<close> shares three variables with its
  caller: the map \<^verbatim>\<open>current\<close>, which every call updates in place, the slice \<^verbatim>\<open>trials\<close> and
  the counter \<^verbatim>\<open>id\<close> (\<open>next_id\<close> here).  They are the state.  The first argument is the list of the
  noise factors from position \<^verbatim>\<open>idx\<close> on.
\<close>

fun helper :: "NoiseFactor list \<Rightarrow> (string \<rightharpoonup> float64) \<times> Trial list \<times> int
                 \<Rightarrow> (string \<rightharpoonup> float64) \<times> Trial list \<times> int" where
  "helper [] (current, trials, next_id) =
     (current, trials @ [\<lparr>ID = next_id, Control = Map.empty, Noise = current\<rparr>], next_id + 1)"
| "helper (factor # rest) st =
     fold (\<lambda>level (current, trials, next_id).
             helper rest (current(Name factor \<mapsto> level), trials, next_id))
       (Levels factor) st"

definition generateNoiseCombinations :: "'g Experiment \<Rightarrow> Trial list" where
  "generateNoiseCombinations e = fst (snd (helper (NoiseFactors e) (Map.empty, [], 1)))"

text \<open>The bodies of the loops of \<^verbatim>\<open>getControlConfig\<close> and \<^verbatim>\<open>combineControlAndNoise\<close>.\<close>

fun getControlConfig_step ::
    "int list \<Rightarrow> nat \<times> Factor \<Rightarrow> (string \<rightharpoonup> float64) \<Rightarrow> (string \<rightharpoonup> float64) option" where
  "getControlConfig_step row (j, factor) controlConfig = do {
     x \<leftarrow> index row (int j);
     let levelIndex = x - 1;
     level \<leftarrow> index (Levels factor) levelIndex;
     Some (controlConfig(Name factor \<mapsto> level))
   }"

definition getControlConfig :: "'g Experiment \<Rightarrow> int list \<Rightarrow> (string \<rightharpoonup> float64) option" where
  "getControlConfig e row =
     foldM (getControlConfig_step row) (enumerate 0 (ControlFactors e)) Map.empty"

fun combine_noise :: "(string \<rightharpoonup> float64) \<Rightarrow> Trial \<Rightarrow> Trial list \<times> int \<Rightarrow> Trial list \<times> int" where
  "combine_noise controlConfig noiseTrial (finalTrials, next_id) =
     (finalTrials @ [\<lparr>ID = next_id, Control = controlConfig, Noise = Noise noiseTrial\<rparr>],
      next_id + 1)"

fun combine_row ::
    "'g Experiment \<Rightarrow> Trial list \<Rightarrow> int list \<Rightarrow> Trial list \<times> int \<Rightarrow> (Trial list \<times> int) option" where
  "combine_row e noiseTrials row (finalTrials, next_id) = do {
     controlConfig \<leftarrow> getControlConfig e row;
     Some (fold (combine_noise controlConfig) noiseTrials (finalTrials, next_id))
   }"

definition combineControlAndNoise :: "'g Experiment \<Rightarrow> Trial list \<Rightarrow> Trial list option" where
  "combineControlAndNoise e noiseTrials =
     map_option fst (foldM (combine_row e noiseTrials) (OrthogonalArray e) ([], 1))"

definition GenerateTrials :: "'g Experiment \<Rightarrow> Trial list option" where
  "GenerateTrials e = combineControlAndNoise e (generateNoiseCombinations e)"

section \<open>Construction and recording (experiment.go)\<close>

datatype construction_error =
  FactorsError
| ArrayEmpty
| CannotAccommodate nat

text \<open>
  \<^verbatim>\<open>NewExperimentUsingArray\<close> first calls \<^verbatim>\<open>factorsFrom\<close>, which is not among the sources;
  its result (an error, or the control factors) is the second argument.  The fields the
  struct literal does not mention have their zero values.
\<close>

definition NewExperimentFromFactorsUsingArray ::
    "'g \<Rightarrow> ControlFactor list \<Rightarrow> int list list \<Rightarrow> NoiseFactor list
       \<Rightarrow> construction_error + 'g Experiment" where
  "NewExperimentFromFactorsUsingArray goal controlFactors orthogonalArray noiseFactors =
     (if length orthogonalArray = 0 then Inl ArrayEmpty
      else if length controlFactors > length (orthogonalArray ! 0)
        then Inl (CannotAccommodate (length controlFactors))
      else Inr \<lparr>ControlFactors = controlFactors, NoiseFactors = noiseFactors, Goal = goal,
                Target = Fin 0, OrthogonalArray = orthogonalArray, Results = [],
                PoolingThreshold = Fin 0\<rparr>)"

definition NewExperimentUsingArray ::
    "'g \<Rightarrow> construction_error + ControlFactor list \<Rightarrow> int list list \<Rightarrow> NoiseFactor list
       \<Rightarrow> construction_error + 'g Experiment" where
  "NewExperimentUsingArray goal factorsFrom orthogonalArray noiseFactors =
     (case factorsFrom of
        Inl err \<Rightarrow> Inl err
      | Inr controlFactors \<Rightarrow>
          if length orthogonalArray = 0 then Inl ArrayEmpty
          else if length controlFactors > length (orthogonalArray ! 0)
            then Inl (CannotAccommodate (length controlFactors))
          else Inr \<lparr>ControlFactors = controlFactors, NoiseFactors = noiseFactors, Goal = goal,
                    Target = Fin 0, OrthogonalArray = orthogonalArray, Results = [],
                    PoolingThreshold = Fin 0\<rparr>)"

definition AddResult :: "'g Experiment \<Rightarrow> Trial \<Rightarrow> float64 list \<Rightarrow> 'g Experiment" where
  "AddResult e trial observations =
     e\<lparr>Results := Results e @ [\<lparr>Trial = trial, Observations = observations\<rparr>]\<rparr>"

section \<open>Per-row signal-to-noise ratios (experiment.go)\<close>

text \<open>
  The loop over the control factors that compares a recorded result's control map with
  row \<^verbatim>\<open>i\<close> of the array and breaks at the first difference.  The first argument is
  the list of the control factors from column \<^verbatim>\<open>j\<close> on.
\<close>

fun row_matches :: "Factor list \<Rightarrow> nat \<Rightarrow> int list \<Rightarrow> (string \<rightharpoonup> float64) \<Rightarrow> bool option" where
  "row_matches [] j row control = Some True"
| "row_matches (factor # rest) j row control = do {
     x \<leftarrow> index row (int j);
     level \<leftarrow> index (Levels factor) (x - 1);
     if fne (lookup_float control (Name factor)) level then Some False
     else row_matches rest (Suc j) row control
   }"

text \<open>The loop over \<^verbatim>\<open>e.Results\<close> for row \<^verbatim>\<open>i\<close>: the slice \<^verbatim>\<open>allObs\<close> it builds.\<close>

definition allObs_step :: "'g Experiment \<Rightarrow> nat \<Rightarrow> TrialResult \<Rightarrow> float64 list \<Rightarrow> float64 list option" where
  "allObs_step e i r allObs = do {
     match \<leftarrow> row_matches (ControlFactors e) 0 (OrthogonalArray e ! i) (Control (Trial r));
     Some (if match then allObs @ Observations r else allObs)
   }"

definition allObs_of_row :: "'g Experiment \<Rightarrow> nat \<Rightarrow> float64 list option" where
  "allObs_of_row e i = foldM (allObs_step e i) (Results e) []"

fun computeOASNR_row ::
    "(float64 list \<Rightarrow> float64) Experiment \<Rightarrow> nat \<Rightarrow> float64 list \<times> float64
       \<Rightarrow> (float64 list \<times> float64) option" where
  "computeOASNR_row e i (oaSNR, grandMean) = do {
     allObs \<leftarrow> allObs_of_row e i;
     let oaSNR = oaSNR[i := (if length allObs > 0 then Goal e allObs else Fin 0)];
     Some (oaSNR, grandMean + oaSNR ! i)
   }"

definition computeOASNR ::
    "(float64 list \<Rightarrow> float64) Experiment \<Rightarrow> (float64 list \<times> float64) option" where
  "computeOASNR e =
     (let oaRows = length (OrthogonalArray e) in do {
        (oaSNR, grandMean) \<leftarrow>
          foldM (computeOASNR_row e) [0..<oaRows] (replicate oaRows (Fin 0), Fin 0);
        Some (oaSNR, grandMean / float64_of_int (int oaRows))
      })"

section \<open>Analysis of variance (anova.go)\<close>

text \<open>The order of each loop over the keys of \<^verbatim>\<open>anova.FactorDF\<close> or \<^verbatim>\<open>anova.FactorSS\<close>.\<close>

record map_orders =
  errorDF_order :: "string list"
  errorSS_order :: "string list"
  factorMS_order :: "string list"
  totalFactorSS_order :: "string list"
  contributions_order :: "string list"

definition valid_orders :: "map_orders \<Rightarrow> string set \<Rightarrow> bool" where
  "valid_orders ord K =
     (enumerates (errorDF_order ord) K \<and> enumerates (errorSS_order ord) K \<and>
      enumerates (factorMS_order ord) K \<and> enumerates (totalFactorSS_order ord) K \<and>
      enumerates (contributions_order ord) K)"

definition totalSS_of :: "float64 list \<Rightarrow> float64 \<Rightarrow> float64" where
  "totalSS_of oaSNR grandMean =
     foldl (\<lambda>totalSS sn. totalSS + (sn - grandMean) * (sn - grandMean)) (Fin 0) oaSNR"

text \<open>The search for the factor's column: the first control factor of that name.\<close>

fun find_levelIdx :: "Factor list \<Rightarrow> nat \<Rightarrow> string \<Rightarrow> int list \<Rightarrow> int option" where
  "find_levelIdx [] j name row = Some (- 1)"
| "find_levelIdx (f # rest) j name row =
     (if Name f = name then map_option (\<lambda>x. x - 1) (index row (int j))
      else find_levelIdx rest (Suc j) name row)"

fun accumulate_step ::
    "'g Experiment \<Rightarrow> Factor \<Rightarrow> float64 list \<Rightarrow> nat \<Rightarrow> float64 list \<times> int list
       \<Rightarrow> (float64 list \<times> int list) option" where
  "accumulate_step e factor oaSNR i (levelMeans, levelCounts) = do {
     levelIdx \<leftarrow> find_levelIdx (ControlFactors e) 0 (Name factor) (OrthogonalArray e ! i);
     if levelIdx \<ge> 0 \<and> levelIdx < int (length (Levels factor)) then do {
       sn \<leftarrow> index oaSNR (int i);
       Some (levelMeans[nat levelIdx := levelMeans ! nat levelIdx + sn],
             levelCounts[nat levelIdx := levelCounts ! nat levelIdx + 1])
     } else Some (levelMeans, levelCounts)
   }"

definition accumulate_levels ::
    "'g Experiment \<Rightarrow> Factor \<Rightarrow> float64 list \<Rightarrow> (float64 list \<times> int list) option" where
  "accumulate_levels e factor oaSNR =
     foldM (accumulate_step e factor oaSNR) [0..<length (OrthogonalArray e)]
       (replicate (length (Levels factor)) (Fin 0), replicate (length (Levels factor)) 0)"

definition level_means :: "float64 list \<Rightarrow> int list \<Rightarrow> float64 list" where
  "level_means levelMeans levelCounts =
     map (\<lambda>li. if levelCounts ! li > 0 then levelMeans ! li / float64_of_int (levelCounts ! li)
               else Fin 0)
       [0..<length levelMeans]"

definition factor_ss :: "Factor \<Rightarrow> float64 list \<Rightarrow> int list \<Rightarrow> float64 \<Rightarrow> float64" where
  "factor_ss factor levelMeans levelCounts grandMean =
     foldl (\<lambda>ss li. ss + float64_of_int (levelCounts ! li) * (levelMeans ! li - grandMean)
                          * (levelMeans ! li - grandMean))
       (Fin 0) [0..<length (Levels factor)]"

text \<open>The body of the loop over the control factors.\<close>

fun computeANOVA_factor ::
    "'g Experiment \<Rightarrow> float64 list \<Rightarrow> float64 \<Rightarrow> Factor
       \<Rightarrow> ANOVAResult \<times> (string \<rightharpoonup> float64 list) \<times> (string \<rightharpoonup> float64 list)
       \<Rightarrow> (ANOVAResult \<times> (string \<rightharpoonup> float64 list) \<times> (string \<rightharpoonup> float64 list)) option" where
  "computeANOVA_factor e oaSNR grandMean factor (anova, mainEffects, snrPerFactor) = do {
     (levelMeans, levelCounts) \<leftarrow> accumulate_levels e factor oaSNR;
     let levelMeans = level_means levelMeans levelCounts;
     let ss = factor_ss factor levelMeans levelCounts grandMean;
     let dfs = int (length (Levels factor)) - 1;
     Some (anova\<lparr>FactorSS := (FactorSS anova)(Name factor \<mapsto> ss),
                 FactorDF := (FactorDF anova)(Name factor \<mapsto> dfs)\<rparr>,
           mainEffects(Name factor \<mapsto> levelMeans),
           snrPerFactor(Name factor \<mapsto> levelMeans))
   }"

definition errorDF_of :: "nat \<Rightarrow> ANOVAResult \<Rightarrow> string list \<Rightarrow> int" where
  "errorDF_of oaRows anova ks =
     (let errorDF = foldl (\<lambda>errorDF k. errorDF - lookup_int (FactorDF anova) k) (int oaRows - 1) ks
      in if errorDF < 1 then 1 else errorDF)"

definition errorSS_of :: "float64 \<Rightarrow> ANOVAResult \<Rightarrow> string list \<Rightarrow> float64" where
  "errorSS_of totalSS anova ks =
     foldl (\<lambda>errorSS k. errorSS - lookup_float (FactorSS anova) k) totalSS ks"

definition factorMS_step :: "float64 \<Rightarrow> ANOVAResult \<Rightarrow> string \<Rightarrow> ANOVAResult" where
  "factorMS_step errorMS anova f =
     (let ss = lookup_float (FactorSS anova) f;
          df = lookup_int (FactorDF anova) f;
          ms = ss / float64_of_int df
      in anova\<lparr>FactorMS := (FactorMS anova)(f \<mapsto> ms),
               FactorF := (FactorF anova)(f \<mapsto> ms / errorMS)\<rparr>)"

definition factorMS_loop :: "ANOVAResult \<Rightarrow> float64 \<Rightarrow> string list \<Rightarrow> ANOVAResult" where
  "factorMS_loop anova errorMS ks = foldl (factorMS_step errorMS) anova ks"

definition computeANOVA ::
    "'g Experiment \<Rightarrow> float64 list \<Rightarrow> float64 \<Rightarrow> map_orders
       \<Rightarrow> (ANOVAResult \<times> (string \<rightharpoonup> float64 list) \<times> (string \<rightharpoonup> float64 list)) option" where
  "computeANOVA e oaSNR grandMean ord =
     (let oaRows = length (OrthogonalArray e);
          totalSS = totalSS_of oaSNR grandMean;
          anova = \<lparr>FactorSS = Map.empty, FactorDF = Map.empty, FactorMS = Map.empty,
                   FactorF = Map.empty, ErrorSS = Fin 0, ErrorDF = 0, ErrorMS = Fin 0,
                   PooledFactors = []\<rparr>
      in do {
        (anova, mainEffects, snrPerFactor) \<leftarrow>
          foldM (computeANOVA_factor e oaSNR grandMean) (ControlFactors e)
            (anova, Map.empty, Map.empty);
        let errorDF = errorDF_of oaRows anova (errorDF_order ord);
        let errorSS = errorSS_of totalSS anova (errorSS_order ord);
        let errorMS = errorSS / float64_of_int errorDF;
        let anova = anova\<lparr>ErrorDF := errorDF, ErrorSS := errorSS, ErrorMS := errorMS\<rparr>;
        let anova = factorMS_loop anova errorMS (factorMS_order ord);
        Some (anova, mainEffects, snrPerFactor)
      })"

definition computeContributions :: "ANOVAResult \<Rightarrow> map_orders \<Rightarrow> (string \<rightharpoonup> float64)" where
  "computeContributions anova ord =
     (let totalFactorSS =
            foldl (\<lambda>totalFactorSS k. totalFactorSS + lookup_float (FactorSS anova) k) (Fin 0)
              (totalFactorSS_order ord)
      in if totalFactorSS > Fin 0
         then foldl (\<lambda>contributions f.
                       contributions(f \<mapsto> (lookup_float (FactorSS anova) f / totalFactorSS) * Fin 100))
                Map.empty (contributions_order ord)
         else foldl (\<lambda>contributions f. contributions(f \<mapsto> Fin 0))
                Map.empty (contributions_order ord))"

section \<open>Optimal levels and the analysis (experiment.go)\<close>

text \<open>
  The scan of one factor's main effects: \<^verbatim>\<open>levels[0]\<close> panics on an empty slice, and the
  state of the loop is the pair of \<^verbatim>\<open>bestLevel\<close> and \<^verbatim>\<open>maxVal\<close>.
\<close>

fun best_step :: "nat \<times> float64 \<Rightarrow> nat \<times> float64 \<Rightarrow> nat \<times> float64" where
  "best_step (bestLevel, maxVal) (i, v) = (if v > maxVal then (i, v) else (bestLevel, maxVal))"

definition best_level :: "float64 list \<Rightarrow> nat option" where
  "best_level levels = do {
     maxVal \<leftarrow> index levels 0;
     Some (fst (foldl best_step (0, maxVal) (enumerate 0 levels)))
   }"

definition findOptimalLevels_step ::
    "(string \<rightharpoonup> float64 list) \<Rightarrow> Factor \<Rightarrow> (string \<rightharpoonup> float64) \<Rightarrow> (string \<rightharpoonup> float64) option" where
  "findOptimalLevels_step mainEffects factor optimalLevels = do {
     let levels = lookup_slice mainEffects (Name factor);
     bestLevel \<leftarrow> best_level levels;
     level \<leftarrow> index (Levels factor) (int bestLevel);
     Some (optimalLevels(Name factor \<mapsto> level))
   }"

definition findOptimalLevels ::
    "'g Experiment \<Rightarrow> (string \<rightharpoonup> float64 list) \<Rightarrow> (string \<rightharpoonup> float64) option" where
  "findOptimalLevels e mainEffects =
     foldM (findOptimalLevels_step mainEffects) (ControlFactors e) Map.empty"

fun assemble ::
    "'g Experiment \<Rightarrow> map_orders \<Rightarrow> float64 list \<times> float64 \<Rightarrow> AnalysisResult option" where
  "assemble e ord (oaSNR, grandMean) = do {
     (anova, mainEffects, snrPerFactor) \<leftarrow> computeANOVA e oaSNR grandMean ord;
     optimalLevels \<leftarrow> findOptimalLevels e mainEffects;
     let contributions = computeContributions anova ord;
     Some \<lparr>OptimalLevels = optimalLevels, SNR = snrPerFactor, MainEffects = mainEffects,
           Contributions = contributions, ANOVA = anova\<rparr>
   }"

definition Analyze :: "(float64 list \<Rightarrow> float64) Experiment \<Rightarrow> map_orders \<Rightarrow> AnalysisResult option" where
  "Analyze e ord = do {
     (oaSNR, grandMean) \<leftarrow> computeOASNR e;
     assemble e ord (oaSNR, grandMean)
   }"

section \<open>The analysis of the non-generic package (second unnamed source file)\<close>

text \<open>
  This \<^verbatim>\<open>Analyze\<close> is one function.  Its first loop computes the per-row values; the
  rest of its body is, statement for statement, the text of \<^verbatim>\<open>computeANOVA\<close>,
  \<^verbatim>\<open>findOptimalLevels\<close> and \<^verbatim>\<open>computeContributions\<close> above, so the model shares
  \<^const>\<open>assemble\<close> with the generic analysis.  The loop over the results of row \<^verbatim>\<open>i\<close>
  keeps a sum of signal-to-noise ratios (\<^verbatim>\<open>sum\<close>, here \<open>snr_sum\<close>) and a count.
\<close>

fun legacy_step ::
    "OptimizationGoal Experiment \<Rightarrow> nat \<Rightarrow> TrialResult \<Rightarrow> float64 \<times> int \<Rightarrow> (float64 \<times> int) option" where
  "legacy_step e i r (snr_sum, count) = do {
     match \<leftarrow> row_matches (ControlFactors e) 0 (OrthogonalArray e ! i) (Control (Trial r));
     Some (if match then (snr_sum + calculateSNR (Goal e) (Target e) (Observations r), count + 1)
           else (snr_sum, count))
   }"

definition legacy_sum_count :: "OptimizationGoal Experiment \<Rightarrow> nat \<Rightarrow> (float64 \<times> int) option" where
  "legacy_sum_count e i = foldM (legacy_step e i) (Results e) (Fin 0, 0)"

fun legacy_row ::
    "OptimizationGoal Experiment \<Rightarrow> nat \<Rightarrow> float64 list \<times> float64
       \<Rightarrow> (float64 list \<times> float64) option" where
  "legacy_row e i (oaSNR, grandMean) = do {
     (snr_sum, count) \<leftarrow> legacy_sum_count e i;
     let oaSNR = oaSNR[i := (if count > 0 then snr_sum / float64_of_int count else Fin 0)];
     Some (oaSNR, grandMean + oaSNR ! i)
   }"

definition legacy_oaSNR :: "OptimizationGoal Experiment \<Rightarrow> (float64 list \<times> float64) option" where
  "legacy_oaSNR e =
     (let oaRows = length (OrthogonalArray e) in do {
        (oaSNR, grandMean) \<leftarrow>
          foldM (legacy_row e) [0..<oaRows] (replicate oaRows (Fin 0), Fin 0);
        Some (oaSNR, grandMean / float64_of_int (int oaRows))
      })"

definition legacy_Analyze :: "OptimizationGoal Experiment \<Rightarrow> map_orders \<Rightarrow> AnalysisResult option" where
  "legacy_Analyze e ord = do {
     (oaSNR, grandMean) \<leftarrow> legacy_oaSNR e;
     assemble e ord (oaSNR, grandMean)
   }"

section \<open>The specification's vocabulary\<close>

text \<open>
  A row of the orthogonal array fits the control factors when it has a column for each of
  them and every entry is a 1-based index of a level of its factor.
\<close>

definition cell_in_range :: "int list \<Rightarrow> nat \<Rightarrow> Factor \<Rightarrow> bool" where
  "cell_in_range row j f = (j < length row \<and> 1 \<le> row ! j \<and> row ! j \<le> int (length (Levels f)))"

definition row_in_range :: "Factor list \<Rightarrow> int list \<Rightarrow> bool" where
  "row_in_range fs row = (\<forall>j < length fs. cell_in_range row j (fs ! j))"

text \<open>
  The full factorial of the noise factors in nesting order: the levels of the first
  factor are the outermost loop.  The first argument is the assignment so far.
\<close>

fun noise_combinations :: "(string \<rightharpoonup> float64) \<Rightarrow> NoiseFactor list \<Rightarrow> (string \<rightharpoonup> float64) list" where
  "noise_combinations current [] = [current]"
| "noise_combinations current (f # fs) =
     concat (map (\<lambda>level. noise_combinations (current(Name f \<mapsto> level)) fs) (Levels f))"

definition noise_count :: "NoiseFactor list \<Rightarrow> nat" where
  "noise_count fs = prod_list (map (\<lambda>f. length (Levels f)) fs)"

text \<open>The number of consecutive combinations over which factor \<open>j\<close> keeps its level.\<close>

definition stride :: "NoiseFactor list \<Rightarrow> nat \<Rightarrow> nat" where
  "stride fs j = noise_count (drop (Suc j) fs)"

definition mean_of :: "real list \<Rightarrow> real" where
  "mean_of xs = sum_list xs / real (length xs)"

text \<open>The substitution of the noise floor for a zero observation.\<close>

definition noise_floor :: "real \<Rightarrow> real" where
  "noise_floor y = (if y = 0 then 1 / 10 ^ 10 else y)"

text \<open>
  Index \<open>b\<close> is the first occurrence of the maximum of \<open>xs\<close>: no value is greater than the
  one at \<open>b\<close>, and every value before \<open>b\<close> is smaller.
\<close>

definition first_max :: "float64 list \<Rightarrow> nat \<Rightarrow> bool" where
  "first_max xs b =
     (b < length xs \<and> (\<forall>j < length xs. \<not> xs ! b < xs ! j) \<and> (\<forall>j < b. xs ! j < xs ! b))"

text \<open>
  The invariants of the data model: control factor names are unique, every array row fits
  the control factors, and every control factor has a level.
\<close>

definition well_formed :: "'g Experiment \<Rightarrow> bool" where
  "well_formed e =
     (distinct (map Name (ControlFactors e))
      \<and> (\<forall>row \<in> set (OrthogonalArray e). row_in_range (ControlFactors e) row)
      \<and> (\<forall>f \<in> set (ControlFactors e). Levels f \<noteq> []))"

text \<open>
  What the analysis result says about optimal levels: every control factor has an entry
  and no other name has one; the entry is the factor's level at the index the scan of its
  main effects returns; and when no main effect of the factor is NaN that index is the
  first occurrence of the maximum.
\<close>

definition optimal_levels_ok :: "'g Experiment \<Rightarrow> AnalysisResult \<Rightarrow> bool" where
  "optimal_levels_ok e res =
     (dom (OptimalLevels res) = Name ` set (ControlFactors e)
      \<and> (\<forall>f \<in> set (ControlFactors e). \<exists>ms b.
            MainEffects res (Name f) = Some ms \<and> length ms = length (Levels f)
          \<and> best_level ms = Some b \<and> b < length ms
          \<and> OptimalLevels res (Name f) = Some (Levels f ! b)
          \<and> (NaN \<notin> set ms \<longrightarrow> first_max ms b)))"

section \<open>Example experiments\<close>

text \<open>One two-level control factor on a two-row array, crossed with a two-level and a
  three-level noise factor.\<close>

definition two_by_six :: "(float64 list \<Rightarrow> float64) Experiment" where
  "two_by_six = \<lparr>ControlFactors = [\<lparr>Name = ''A'', Levels = [Fin 1, Fin 2]\<rparr>],
           NoiseFactors = [\<lparr>Name = ''N'', Levels = [Fin 0, Fin 1]\<rparr>,
                           \<lparr>Name = ''M'', Levels = [Fin 5, Fin 6, Fin 7]\<rparr>],
           Goal = snrSmallerTheBetter, Target = Fin 0,
           OrthogonalArray = [[1], [2]], Results = [], PoolingThreshold = Fin 0\<rparr>"

text \<open>
  The experiment of the repository's test \<^verbatim>\<open>TestAnalyze_SNR_CombinesObservationsAcrossNoise\<close>:
  one two-level factor, two rows, one two-level noise factor, and the four recorded results.
  The goal is the argument, since the two packages represent it differently.
\<close>

definition pooling_example :: "'g \<Rightarrow> 'g Experiment" where
  "pooling_example goal =
     \<lparr>ControlFactors = [\<lparr>Name = ''A'', Levels = [Fin 1, Fin 2]\<rparr>],
      NoiseFactors = [\<lparr>Name = ''N'', Levels = [Fin 0, Fin 1]\<rparr>],
      Goal = goal, Target = Fin 0, OrthogonalArray = [[1], [2]],
      Results =
        [\<lparr>Trial = \<lparr>ID = 1, Control = [''A'' \<mapsto> Fin 1], Noise = [''N'' \<mapsto> Fin 0]\<rparr>,
          Observations = [Fin 2, Fin 4]\<rparr>,
         \<lparr>Trial = \<lparr>ID = 2, Control = [''A'' \<mapsto> Fin 1], Noise = [''N'' \<mapsto> Fin 1]\<rparr>,
          Observations = [Fin 6, Fin 8]\<rparr>,
         \<lparr>Trial = \<lparr>ID = 3, Control = [''A'' \<mapsto> Fin 2], Noise = [''N'' \<mapsto> Fin 0]\<rparr>,
          Observations = [Fin 1, Fin 1]\<rparr>,
         \<lparr>Trial = \<lparr>ID = 4, Control = [''A'' \<mapsto> Fin 2], Noise = [''N'' \<mapsto> Fin 1]\<rparr>,
          Observations = [Fin 1, Fin 1]\<rparr>],
      PoolingThreshold = Fin 0\<rparr>"

text \<open>The only order in which the keys of a map with the single key A can be visited.\<close>

definition orders_A :: map_orders where
  "orders_A = \<lparr>errorDF_order = [''A''], errorSS_order = [''A''], factorMS_order = [''A''],
               totalFactorSS_order = [''A''], contributions_order = [''A'']\<rparr>"

text \<open>An analysis of variance with two factors, and orders for its maps.\<close>

definition anova_AB :: ANOVAResult where
  "anova_AB = \<lparr>FactorSS = [''A'' \<mapsto> Fin 1, ''B'' \<mapsto> Fin 3], FactorDF = [''A'' \<mapsto> 1, ''B'' \<mapsto> 1],
                FactorMS = Map.empty, FactorF = Map.empty, ErrorSS = Fin 0, ErrorDF = 1,
                ErrorMS = Fin 0, PooledFactors = []\<rparr>"

definition orders_AB :: map_orders where
  "orders_AB = \<lparr>errorDF_order = [''A'', ''B''], errorSS_order = [''B'', ''A''],
                factorMS_order = [''A'', ''B''], totalFactorSS_order = [''B'', ''A''],
                contributions_order = [''A'', ''B'']\<rparr>"

section \<open>Auxiliary notions of the proofs\<close>

text \<open>The \<^verbatim>\<open>ANOVAResult\<close> that \<^verbatim>\<open>computeANOVA\<close> starts from.\<close>

definition anova0 :: ANOVAResult where
  "anova0 = \<lparr>FactorSS = Map.empty, FactorDF = Map.empty, FactorMS = Map.empty,
             FactorF = Map.empty, ErrorSS = Fin 0, ErrorDF = 0, ErrorMS = Fin 0,
             PooledFactors = []\<rparr>"

text \<open>The number a finite float64 stands for.\<close>

fun real_of :: "float64 \<Rightarrow> real" where
  "real_of (Fin x) = x"
| "real_of _ = 0"


text \<open>The trials that \<^verbatim>\<open>combineControlAndNoise\<close> appends for one row, numbered from \<open>n\<close>.\<close>

definition row_block :: "'g Experiment \<Rightarrow> Trial list \<Rightarrow> int \<Rightarrow> int list \<Rightarrow> Trial list" where
  "row_block e nts n row =
     map (\<lambda>k. \<lparr>ID = n + int k, Control = the (getControlConfig e row), Noise = Noise (nts ! k)\<rparr>)
       [0..<length nts]"

text \<open>The noise-only trials that \<^verbatim>\<open>helper\<close> appends for a list of assignments.\<close>

fun numbered :: "int \<Rightarrow> (string \<rightharpoonup> float64) list \<Rightarrow> Trial list" where
  "numbered n [] = []"
| "numbered n (m # ms) = \<lparr>ID = n, Control = Map.empty, Noise = m\<rparr> # numbered (n + 1) ms"

section \<open>Facts about the arithmetic\<close>

lemma float64_add_commute: "(x::float64) + y = y + x"
  by (cases x; cases y) simp_all

lemma float64_add_assoc: "((x::float64) + y) + z = x + (y + z)"
  by (cases x; cases y; cases z) simp_all

lemma float64_add_zero: "Fin 0 + (x::float64) = x"
  by (cases x) simp_all

instance float64 :: comm_monoid_add
proof
  fix a b c :: float64
  show "a + b + c = a + (b + c)" by (rule float64_add_assoc)
  show "a + b = b + a" by (rule float64_add_commute)
  show "0 + a = a" by (simp add: zero_float64_def float64_add_zero)
qed

section \<open>The three ratios\<close>

lemma smaller_loop:
  "foldl (\<lambda>msd y. msd + y * y) (Fin a) (map Fin ys) = Fin (a + (\<Sum>y\<leftarrow>ys. y * y))"
  by (induction ys arbitrary: a) (simp_all add: add.assoc)

lemma nominal_loop:
  "foldl (\<lambda>msd y. msd + (y - Fin t) * (y - Fin t)) (Fin a) (map Fin ys)
     = Fin (a + (\<Sum>y\<leftarrow>ys. (y - t) * (y - t)))"
  by (induction ys arbitrary: a) (simp_all add: add.assoc minus_float64_def)

lemma larger_loop:
  "foldl (\<lambda>msd y. let y = (if feq y (Fin 0) then Fin (1 / 10 ^ 10) else y)
                   in msd + Fin 1 / (y * y)) (Fin a) (map Fin ys)
     = Fin (a + (\<Sum>y\<leftarrow>ys. 1 / (noise_floor y * noise_floor y)))"
  by (induction ys arbitrary: a) (simp_all add: add.assoc noise_floor_def Let_def)

lemma sum_list_pos_real:
  "xs \<noteq> [] \<Longrightarrow> (\<forall>x \<in> set xs. 0 < (x::real)) \<Longrightarrow> 0 < sum_list xs"
proof (induction xs)
  case Nil
  then show ?case by simp
next
  case (Cons a xs)
  have "0 \<le> sum_list xs"
    using Cons.prems by (intro sum_list_nonneg) (auto intro: less_imp_le)
  moreover have "0 < a" using Cons.prems by simp
  ultimately show ?case by simp
qed

text \<open>
  C9.  Whatever the goal (the three named ones or any other value of the integer type) and
  whatever the target, \<^verbatim>\<open>calculateSNR\<close> returns 0 for an empty observation pool; it returns
  a value, there is no error result.
\<close>

theorem calculateSNR_empty: "calculateSNR goal target [] = Fin 0"
  by (simp add: calculateSNR_def)

text \<open>
  C2.  For a non-empty pool of finite observations, Smaller-the-Better is
  \<open>-10 log10 (mean of y\<^sup>2)\<close> and Nominal-the-Best is \<open>-10 log10 (mean of (y - target)\<^sup>2)\<close>,
  except that a mean of exactly zero gives plus infinity: the test for zero comes first
  and the logarithm is not taken then.
\<close>

theorem snr_smaller_nominal_formula:
  assumes "ys \<noteq> []"
  shows "snrSmallerTheBetter (map Fin ys) =
           (if mean_of (map (\<lambda>y. y * y) ys) = 0 then PInf
            else Fin (- 10 * log 10 (mean_of (map (\<lambda>y. y * y) ys))))
       \<and> snrNominalTheBest (map Fin ys) (Fin t) =
           (if mean_of (map (\<lambda>y. (y - t) * (y - t)) ys) = 0 then PInf
            else Fin (- 10 * log 10 (mean_of (map (\<lambda>y. (y - t) * (y - t)) ys))))"
proof -
  have n: "real (length ys) \<noteq> 0" using assms by simp
  have sq: "0 \<le> (\<Sum>y\<leftarrow>ys. y * y)" by (rule sum_list_nonneg) auto
  have dv: "0 \<le> (\<Sum>y\<leftarrow>ys. (y - t) * (y - t))" by (rule sum_list_nonneg) auto
  have a: "0 \<le> mean_of (map (\<lambda>y. y * y) ys)" using sq by (simp add: mean_of_def)
  have b: "0 \<le> mean_of (map (\<lambda>y. (y - t) * (y - t)) ys)" using dv by (simp add: mean_of_def)
  show ?thesis
    using n a b
    by (auto simp add: snrSmallerTheBetter_def snrNominalTheBest_def smaller_loop nominal_loop
        float64_of_len_def mean_of_def Let_def)
qed

theorem snr_smaller_nominal_formula_witness:
  "[2, 4, 6, 8] \<noteq> ([]::real list)
   \<and> snrSmallerTheBetter [Fin 2, Fin 4, Fin 6, Fin 8] = Fin (- 10 * log 10 30)
   \<and> snrNominalTheBest [Fin 3, Fin 4, Fin 6, Fin 7] (Fin 5) = Fin (- 10 * log 10 (5 / 2))
   \<and> snrSmallerTheBetter [Fin 0, Fin 0] = PInf
   \<and> snrNominalTheBest [Fin 5, Fin 5, Fin 5, Fin 5] (Fin 5) = PInf"
  using snr_smaller_nominal_formula [of "[2, 4, 6, 8]" 5]
    snr_smaller_nominal_formula [of "[3, 4, 6, 7]" 5]
    snr_smaller_nominal_formula [of "[0, 0]" 5]
    snr_smaller_nominal_formula [of "[5, 5, 5, 5]" 5]
  by (simp add: mean_of_def)

text \<open>
  C8.  For a non-empty pool of finite observations under Larger-the-Better, every zero
  observation is replaced by \<open>10\<^sup>-\<^sup>1\<^sup>0\<close> before the inversion, so no divisor \<open>y'\<^sup>2\<close> is zero, and
  the result is \<open>-10 log10 (mean of 1 / y'\<^sup>2)\<close> over the substituted values: always a finite
  number, there is no plus-infinity case.
\<close>

theorem snr_larger_formula:
  assumes "ys \<noteq> []"
  shows "(\<forall>y \<in> set ys. noise_floor y * noise_floor y \<noteq> 0) \<and>
     snrLargerTheBetter (map Fin ys) =
       Fin (- 10 * log 10 (mean_of (map (\<lambda>y. 1 / (noise_floor y * noise_floor y)) ys)))"
proof -
  have n: "0 < real (length ys)" using assms by simp
  have nz: "\<And>y. noise_floor y \<noteq> 0" by (simp add: noise_floor_def)
  have "0 < (\<Sum>y\<leftarrow>ys. 1 / (noise_floor y * noise_floor y))"
    using assms nz by (intro sum_list_pos_real) (auto simp: zero_less_mult_iff less_le not_less)
  then have m: "0 < mean_of (map (\<lambda>y. 1 / (noise_floor y * noise_floor y)) ys)"
    using n by (simp add: mean_of_def)
  show ?thesis using n m nz
    unfolding snrLargerTheBetter_def larger_loop float64_of_len_def
    by (simp add: mean_of_def Let_def)
qed

theorem snr_larger_formula_witness:
  "snrLargerTheBetter [Fin 0, Fin 0] = Fin (- 10 * log 10 (10 ^ 20))
   \<and> snrLargerTheBetter [Fin 10, Fin 10, Fin 10, Fin 10] = Fin (- 10 * log 10 (1 / 100))
   \<and> snrLargerTheBetter [Fin 2, Fin 4, Fin 6, Fin 8]
       = Fin (- 10 * log 10 ((1 / 4 + 1 / 16 + 1 / 36 + 1 / 64) / 4))"
  using snr_larger_formula [of "[0, 0]"] snr_larger_formula [of "[10, 10, 10, 10]"]
    snr_larger_formula [of "[2, 4, 6, 8]"]
  by (simp add: mean_of_def noise_floor_def)

section \<open>Trial generation\<close>

lemma getControlConfig_step_Some:
  "(\<exists>c'. getControlConfig_step row (j, f) c = Some c') \<longleftrightarrow> cell_in_range row j f"
  by (auto simp: index_def cell_in_range_def Let_def split: if_splits)

lemma getControlConfig_step_None:
  "getControlConfig_step row (j, f) c = None \<longleftrightarrow> \<not> cell_in_range row j f"
  by (auto simp: index_def cell_in_range_def Let_def split: if_splits)

lemma getControlConfig_loop_Some:
  "(\<exists>c'. foldM (getControlConfig_step row) (enumerate j fs) c = Some c')
     \<longleftrightarrow> (\<forall>k < length fs. cell_in_range row (j + k) (fs ! k))"
proof (induction fs arbitrary: j c)
  case Nil
  then show ?case by simp
next
  case (Cons f fs)
  show ?case
  proof (cases "cell_in_range row j f")
    case True
    then obtain c' where c': "getControlConfig_step row (j, f) c = Some c'"
      using getControlConfig_step_Some by blast
    have "(\<forall>k < length (f # fs). cell_in_range row (j + k) ((f # fs) ! k))
         \<longleftrightarrow> (\<forall>k < length fs. cell_in_range row (Suc j + k) (fs ! k))"
      using True by (auto simp: All_less_Suc2)
    then show ?thesis using Cons.IH [of "Suc j" c'] c' by simp
  next
    case False
    then have "getControlConfig_step row (j, f) c = None"
      using getControlConfig_step_None by blast
    moreover have "\<not> (\<forall>k < length (f # fs). cell_in_range row (j + k) ((f # fs) ! k))"
      using False by auto
    ultimately show ?thesis by simp
  qed
qed

lemma getControlConfig_Some_iff:
  "(\<exists>c. getControlConfig e row = Some c) \<longleftrightarrow> row_in_range (ControlFactors e) row"
  unfolding getControlConfig_def row_in_range_def
  using getControlConfig_loop_Some [of row 0 "ControlFactors e" Map.empty] by simp

lemma fold_combine_noise:
  "fold (combine_noise c) nts (ft, n) =
     (ft @ map (\<lambda>k. \<lparr>ID = n + int k, Control = c, Noise = Noise (nts ! k)\<rparr>) [0..<length nts],
      n + int (length nts))"
proof (induction nts rule: rev_induct)
  case Nil
  then show ?case by simp
next
  case (snoc t nts)
  have "map (\<lambda>k. \<lparr>ID = n + int k, Control = c, Noise = Noise ((nts @ [t]) ! k)\<rparr>) [0..<length nts]
      = map (\<lambda>k. \<lparr>ID = n + int k, Control = c, Noise = Noise (nts ! k)\<rparr>) [0..<length nts]"
    by (rule map_cong) (simp_all add: nth_append)
  then show ?case using snoc.IH by simp
qed

lemma combine_row_Some:
  assumes "row_in_range (ControlFactors e) row"
  shows "combine_row e nts row (ft, n) = Some (ft @ row_block e nts n row, n + int (length nts))"
proof -
  obtain c where "getControlConfig e row = Some c"
    using assms getControlConfig_Some_iff by blast
  then show ?thesis by (simp add: fold_combine_noise row_block_def)
qed

lemma combine_row_None:
  assumes "\<not> row_in_range (ControlFactors e) row"
  shows "combine_row e nts row (ft, n) = None"
proof -
  have "getControlConfig e row = None"
    using assms getControlConfig_Some_iff [of e row] by auto
  then show ?thesis by simp
qed

lemma combine_rows_nth:
  assumes "\<forall>row \<in> set rows. row_in_range (ControlFactors e) row"
  shows "\<exists>ts. foldM (combine_row e nts) rows (ft, n) = Some (ft @ ts, n + int (length rows * length nts))
     \<and> length ts = length rows * length nts
     \<and> (\<forall>m < length ts. ts ! m = \<lparr>ID = n + int m,
            Control = the (getControlConfig e (rows ! (m div length nts))),
            Noise = Noise (nts ! (m mod length nts))\<rparr>)"
  using assms
proof (induction rows arbitrary: ft n)
  case Nil
  then show ?case by simp
next
  case (Cons row rows)
  let ?N = "length nts"
  have step: "combine_row e nts row (ft, n) = Some (ft @ row_block e nts n row, n + int ?N)"
    using Cons.prems by (simp add: combine_row_Some del: combine_row.simps)
  from Cons.IH [of "ft @ row_block e nts n row" "n + int ?N"] Cons.prems
  obtain ts where ts: "foldM (combine_row e nts) rows (ft @ row_block e nts n row, n + int ?N)
        = Some ((ft @ row_block e nts n row) @ ts, n + int ?N + int (length rows * ?N))"
      "length ts = length rows * ?N"
      "\<forall>m < length ts. ts ! m = \<lparr>ID = n + int ?N + int m,
            Control = the (getControlConfig e (rows ! (m div ?N))),
            Noise = Noise (nts ! (m mod ?N))\<rparr>"
    by auto
  let ?ts = "row_block e nts n row @ ts"
  have len: "length ?ts = length (row # rows) * ?N"
    using ts(2) by (simp add: row_block_def)
  have nth: "?ts ! m = \<lparr>ID = n + int m,
            Control = the (getControlConfig e ((row # rows) ! (m div ?N))),
            Noise = Noise (nts ! (m mod ?N))\<rparr>" if m: "m < length ?ts" for m
  proof (cases "m < ?N")
    case True
    then show ?thesis by (simp add: nth_append row_block_def)
  next
    case False
    then have ge: "?N \<le> m" by simp
    have pos: "0 < ?N" using m len False by (cases "?N = 0") auto
    have lt: "m - ?N < length ts" using m ge by (simp add: row_block_def)
    have d: "m div ?N = Suc ((m - ?N) div ?N)" using ge pos by (simp add: le_div_geq)
    have r: "m mod ?N = (m - ?N) mod ?N" using ge by (simp add: le_mod_geq)
    have "?ts ! m = ts ! (m - ?N)" using False by (simp add: nth_append row_block_def)
    also have "\<dots> = \<lparr>ID = n + int ?N + int (m - ?N),
            Control = the (getControlConfig e (rows ! ((m - ?N) div ?N))),
            Noise = Noise (nts ! ((m - ?N) mod ?N))\<rparr>"
      using ts(3) lt by simp
    finally show ?thesis using d r ge by simp
  qed
  show ?case
    using step ts(1) len nth
    by (intro exI [of _ ?ts]) (simp add: algebra_simps)
qed

lemma combine_rows_None:
  assumes "\<not> (\<forall>row \<in> set rows. row_in_range (ControlFactors e) row)"
  shows "foldM (combine_row e nts) rows (ft, n) = None"
  using assms
proof (induction rows arbitrary: ft n)
  case Nil
  then show ?case by simp
next
  case (Cons row rows)
  show ?case
  proof (cases "row_in_range (ControlFactors e) row")
    case True
    then show ?thesis using Cons by (simp add: combine_row_Some del: combine_row.simps)
  next
    case False
    then show ?thesis by (simp add: combine_row_None del: combine_row.simps)
  qed
qed

lemma numbered_append:
  "numbered n (a @ b) = numbered n a @ numbered (n + int (length a)) b"
  by (induction a arbitrary: n) (simp_all add: add.assoc add.commute)

lemma length_numbered: "length (numbered n ms) = length ms"
  by (induction ms arbitrary: n) simp_all

lemma nth_numbered:
  "k < length ms \<Longrightarrow> numbered n ms ! k = \<lparr>ID = n + int k, Control = Map.empty, Noise = ms ! k\<rparr>"
proof (induction ms arbitrary: n k)
  case Nil
  then show ?case by simp
next
  case (Cons m ms)
  then show ?case by (cases k) (simp_all add: add.assoc add.commute)
qed

lemma noise_combinations_cong:
  "(\<forall>k. k \<notin> Name ` set fs \<longrightarrow> c1 k = c2 k)
     \<Longrightarrow> noise_combinations c1 fs = noise_combinations c2 fs"
proof (induction fs arbitrary: c1 c2)
  case Nil
  then show ?case by auto
next
  case (Cons f fs)
  have "noise_combinations (c1(Name f \<mapsto> l)) fs = noise_combinations (c2(Name f \<mapsto> l)) fs" for l
    using Cons.prems by (intro Cons.IH) auto
  then show ?case by simp
qed

lemma helper_spec:
  "\<exists>cur'. helper fs (cur, trials, n) =
       (cur', trials @ numbered n (noise_combinations cur fs),
        n + int (length (noise_combinations cur fs)))
     \<and> (\<forall>k. k \<notin> Name ` set fs \<longrightarrow> cur' k = cur k)"
proof (induction fs arbitrary: cur trials n)
  case Nil
  then show ?case by simp
next
  case (Cons f fs)
  note outer = Cons.IH
  let ?step = "\<lambda>level (current, trials, next_id).
                 helper fs (current(Name f \<mapsto> level), trials, next_id)"
  let ?C = "\<lambda>c ls. concat (map (\<lambda>level. noise_combinations (c(Name f \<mapsto> level)) fs) ls)"
  have loop: "\<exists>cur'. fold ?step ls (cur, trials, n) =
        (cur', trials @ numbered n (?C cur ls), n + int (length (?C cur ls)))
      \<and> (\<forall>k. k \<notin> Name ` set (f # fs) \<longrightarrow> cur' k = cur k)" for ls cur trials n
  proof (induction ls arbitrary: cur trials n)
    case Nil
    then show ?case by simp
  next
    case (Cons l ls)
    let ?A = "noise_combinations (cur(Name f \<mapsto> l)) fs"
    from outer [of "cur(Name f \<mapsto> l)" trials n]
    obtain cur1 where h1: "helper fs (cur(Name f \<mapsto> l), trials, n)
          = (cur1, trials @ numbered n ?A, n + int (length ?A))"
      and a1: "\<forall>k. k \<notin> Name ` set fs \<longrightarrow> cur1 k = (cur(Name f \<mapsto> l)) k"
      by blast
    from Cons.IH [of cur1 "trials @ numbered n ?A" "n + int (length ?A)"]
    obtain cur2 where h2: "fold ?step ls (cur1, trials @ numbered n ?A, n + int (length ?A))
          = (cur2, (trials @ numbered n ?A) @ numbered (n + int (length ?A)) (?C cur1 ls),
             n + int (length ?A) + int (length (?C cur1 ls)))"
      and a2: "\<forall>k. k \<notin> Name ` set (f # fs) \<longrightarrow> cur2 k = cur1 k"
      by blast
    have "noise_combinations (cur1(Name f \<mapsto> l')) fs = noise_combinations (cur(Name f \<mapsto> l')) fs" for l'
      using a1 by (intro noise_combinations_cong) auto
    then have same: "?C cur1 ls = ?C cur ls" by simp
    have "fold ?step (l # ls) (cur, trials, n)
        = (cur2, trials @ numbered n (?C cur (l # ls)), n + int (length (?C cur (l # ls))))"
      using h1 h2 same by (simp add: numbered_append)
    moreover have "\<forall>k. k \<notin> Name ` set (f # fs) \<longrightarrow> cur2 k = cur k"
      using a1 a2 by auto
    ultimately show ?case by blast
  qed
  show ?case using loop [of "Levels f" cur trials n] by simp
qed

lemma generateNoiseCombinations_eq:
  "generateNoiseCombinations e = numbered 1 (noise_combinations Map.empty (NoiseFactors e))"
  using helper_spec [of "NoiseFactors e" Map.empty "[]" 1]
  by (auto simp: generateNoiseCombinations_def)

lemma length_concat_uniform:
  "(\<forall>b \<in> set bs. length b = N) \<Longrightarrow> length (concat bs) = length bs * N"
  by (induction bs) simp_all

lemma nth_concat_uniform:
  "(\<forall>b \<in> set bs. length b = N) \<Longrightarrow> k < length bs * N
     \<Longrightarrow> concat bs ! k = bs ! (k div N) ! (k mod N)"
proof (induction bs arbitrary: k)
  case Nil
  then show ?case by simp
next
  case (Cons b bs)
  show ?case
  proof (cases "k < N")
    case True
    then show ?thesis using Cons.prems by (simp add: nth_append)
  next
    case False
    then have ge: "N \<le> k" by simp
    have pos: "0 < N" using Cons.prems(2) by (cases "N = 0") auto
    have "k - N < length bs * N" using Cons.prems(2) ge by simp
    then have "concat bs ! (k - N) = bs ! ((k - N) div N) ! ((k - N) mod N)"
      using Cons.IH Cons.prems(1) by simp
    moreover have "k div N = Suc ((k - N) div N)" using ge pos by (simp add: le_div_geq)
    moreover have "k mod N = (k - N) mod N" using ge by (simp add: le_mod_geq)
    ultimately show ?thesis using Cons.prems(1) False by (simp add: nth_append)
  qed
qed

lemma length_noise_combinations:
  "length (noise_combinations cur fs) = noise_count fs"
proof (induction fs arbitrary: cur)
  case Nil
  then show ?case by (simp add: noise_count_def)
next
  case (Cons f fs)
  have "length (concat (map (\<lambda>level. noise_combinations (cur(Name f \<mapsto> level)) fs) (Levels f)))
      = length (map (\<lambda>level. noise_combinations (cur(Name f \<mapsto> level)) fs) (Levels f)) * noise_count fs"
    by (rule length_concat_uniform) (auto simp: Cons.IH)
  then show ?case by (simp add: noise_count_def)
qed

lemma nth_noise_combinations_Cons:
  assumes "k < length (Levels f) * noise_count fs"
  shows "noise_combinations cur (f # fs) ! k
     = noise_combinations (cur(Name f \<mapsto> Levels f ! (k div noise_count fs))) fs ! (k mod noise_count fs)"
proof -
  let ?bs = "map (\<lambda>level. noise_combinations (cur(Name f \<mapsto> level)) fs) (Levels f)"
  have pos: "0 < noise_count fs" using assms by (cases "noise_count fs = 0") auto
  have "k div noise_count fs < length (Levels f)"
    using assms pos by (simp add: less_mult_imp_div_less)
  moreover have "concat ?bs ! k = ?bs ! (k div noise_count fs) ! (k mod noise_count fs)"
    using assms by (intro nth_concat_uniform) (auto simp: length_noise_combinations)
  ultimately show ?thesis by simp
qed

lemma noise_combinations_other:
  "name \<notin> Name ` set fs \<Longrightarrow> k < noise_count fs
     \<Longrightarrow> (noise_combinations cur fs ! k) name = cur name"
proof (induction fs arbitrary: cur k)
  case Nil
  then show ?case by (simp add: noise_count_def)
next
  case (Cons f fs)
  have k: "k < length (Levels f) * noise_count fs" using Cons.prems(2) by (simp add: noise_count_def)
  have pos: "0 < noise_count fs" using k by (cases "noise_count fs = 0") auto
  have "(noise_combinations (cur(Name f \<mapsto> Levels f ! (k div noise_count fs))) fs ! (k mod noise_count fs)) name
      = (cur(Name f \<mapsto> Levels f ! (k div noise_count fs))) name"
    using Cons.prems(1) pos by (intro Cons.IH) auto
  then show ?case using Cons.prems(1) nth_noise_combinations_Cons [OF k, of cur] by simp
qed

lemma digit_arith:
  fixes k S n P :: nat
  shows "(k mod (S * (n * P))) div S mod n = k div S mod n"
proof (cases "S = 0")
  case True
  then show ?thesis by simp
next
  case False
  have "k mod (S * (n * P)) = S * (k div S mod (n * P)) + k mod S"
    by (rule mod_mult2_eq)
  then have "(k mod (S * (n * P))) div S = k div S mod (n * P)"
    using False by simp
  then show ?thesis by (simp add: mod_mod_cancel)
qed

lemma noise_count_append: "noise_count (a @ b) = noise_count a * noise_count b"
  by (simp add: noise_count_def)

lemma noise_count_split:
  assumes "j < length fs"
  shows "noise_count fs = stride fs j * (length (Levels (fs ! j)) * noise_count (take j fs))"
proof -
  have "fs = take j fs @ fs ! j # drop (Suc j) fs" using assms by (rule id_take_nth_drop)
  then have "noise_count fs = noise_count (take j fs @ fs ! j # drop (Suc j) fs)" by simp
  then show ?thesis by (simp add: noise_count_def stride_def)
qed

lemma noise_combinations_digit:
  "distinct (map Name fs) \<Longrightarrow> k < noise_count fs \<Longrightarrow> j < length fs
     \<Longrightarrow> (noise_combinations cur fs ! k) (Name (fs ! j))
           = Some (Levels (fs ! j) ! (k div stride fs j mod length (Levels (fs ! j))))"
proof (induction fs arbitrary: cur k j)
  case Nil
  then show ?case by simp
next
  case (Cons f fs)
  let ?N = "noise_count fs"
  have k: "k < length (Levels f) * ?N" using Cons.prems(2) by (simp add: noise_count_def)
  have pos: "0 < ?N" using k by (cases "?N = 0") auto
  have kd: "k div ?N < length (Levels f)" using k pos by (simp add: less_mult_imp_div_less)
  have km: "k mod ?N < ?N" using pos by simp
  let ?cur = "cur(Name f \<mapsto> Levels f ! (k div ?N))"
  have nth: "noise_combinations cur (f # fs) ! k = noise_combinations ?cur fs ! (k mod ?N)"
    by (rule nth_noise_combinations_Cons [OF k])
  show ?case
  proof (cases j)
    case 0
    have "Name f \<notin> Name ` set fs" using Cons.prems(1) by auto
    then have "(noise_combinations ?cur fs ! (k mod ?N)) (Name f) = ?cur (Name f)"
      using km by (rule noise_combinations_other)
    then show ?thesis using 0 nth kd by (simp add: stride_def)
  next
    case (Suc j')
    have j': "j' < length fs" using Cons.prems(3) Suc by simp
    have "(noise_combinations ?cur fs ! (k mod ?N)) (Name (fs ! j'))
        = Some (Levels (fs ! j') ! ((k mod ?N) div stride fs j' mod length (Levels (fs ! j'))))"
      using Cons.prems(1) km j' by (intro Cons.IH) auto
    moreover have "(k mod ?N) div stride fs j' mod length (Levels (fs ! j'))
        = k div stride fs j' mod length (Levels (fs ! j'))"
      unfolding noise_count_split [OF j'] by (rule digit_arith)
    moreover have "stride (f # fs) (Suc j') = stride fs j'" by (simp add: stride_def)
    ultimately show ?thesis using Suc nth by simp
  qed
qed

lemma GenerateTrials_Some:
  assumes "\<forall>row \<in> set (OrthogonalArray e). row_in_range (ControlFactors e) row"
  shows "\<exists>ts. GenerateTrials e = Some ts
     \<and> length ts = length (OrthogonalArray e) * noise_count (NoiseFactors e)
     \<and> (\<forall>m < length ts. ts ! m =
           \<lparr>ID = 1 + int m,
            Control = the (getControlConfig e (OrthogonalArray e ! (m div noise_count (NoiseFactors e)))),
            Noise = noise_combinations Map.empty (NoiseFactors e) ! (m mod noise_count (NoiseFactors e))\<rparr>)"
proof -
  let ?combos = "noise_combinations Map.empty (NoiseFactors e)"
  let ?nts = "numbered 1 ?combos"
  let ?N = "noise_count (NoiseFactors e)"
  have len: "length ?nts = ?N" by (simp add: length_numbered length_noise_combinations)
  from combine_rows_nth [OF assms, of ?nts "[]" 1]
  obtain ts where ts: "foldM (combine_row e ?nts) (OrthogonalArray e) ([], 1)
        = Some (ts, 1 + int (length (OrthogonalArray e) * length ?nts))"
    "length ts = length (OrthogonalArray e) * length ?nts"
    "\<forall>m < length ts. ts ! m = \<lparr>ID = 1 + int m,
            Control = the (getControlConfig e (OrthogonalArray e ! (m div length ?nts))),
            Noise = Noise (?nts ! (m mod length ?nts))\<rparr>"
    by auto
  have gen: "GenerateTrials e = Some ts"
    using ts(1) by (simp add: GenerateTrials_def combineControlAndNoise_def generateNoiseCombinations_eq)
  have "ts ! m = \<lparr>ID = 1 + int m,
            Control = the (getControlConfig e (OrthogonalArray e ! (m div ?N))),
            Noise = ?combos ! (m mod ?N)\<rparr>" if m: "m < length ts" for m
  proof -
    have pos: "0 < ?N" using m ts(2) len by (cases "?N = 0") auto
    then have "m mod ?N < length ?combos" by (simp add: length_noise_combinations)
    then have "Noise (?nts ! (m mod ?N)) = ?combos ! (m mod ?N)" by (simp add: nth_numbered)
    then show ?thesis using ts(3) m len by simp
  qed
  then show ?thesis using gen ts(2) len by auto
qed

lemma GenerateTrials_None:
  assumes "\<not> (\<forall>row \<in> set (OrthogonalArray e). row_in_range (ControlFactors e) row)"
  shows "GenerateTrials e = None"
  using combine_rows_None [OF assms]
  by (simp add: GenerateTrials_def combineControlAndNoise_def)

text \<open>
  C5.  On an experiment whose array rows fit the control factors, \<^verbatim>\<open>GenerateTrials\<close> returns
  a list of (number of rows) times (product of the noise factors' level counts) trials.
  Trial number \<open>m\<close> (from 0) has ID \<open>m + 1\<close>, the control configuration of row
  \<open>m div N\<close> and the noise combination number \<open>m mod N\<close>, \<open>N\<close> being the number of noise
  combinations: rows are the outer loop.  With distinct noise factor names, noise factor
  \<open>j\<close> is at its level number \<open>(m div stride j) mod (its level count)\<close>, where \<open>stride j\<close>
  is the product of the level counts of the factors declared after \<open>j\<close>: the last factor
  changes at every trial, the first one slowest.
\<close>

theorem GenerateTrials_row_major:
  assumes "\<forall>row \<in> set (OrthogonalArray e). row_in_range (ControlFactors e) row"
  shows "\<exists>ts. GenerateTrials e = Some ts
     \<and> length ts = length (OrthogonalArray e) * noise_count (NoiseFactors e)
     \<and> (\<forall>m < length ts.
          ID (ts ! m) = int m + 1
        \<and> getControlConfig e (OrthogonalArray e ! (m div noise_count (NoiseFactors e)))
            = Some (Control (ts ! m))
        \<and> Noise (ts ! m)
            = noise_combinations Map.empty (NoiseFactors e) ! (m mod noise_count (NoiseFactors e))
        \<and> (distinct (map Name (NoiseFactors e)) \<longrightarrow>
             (\<forall>j < length (NoiseFactors e).
                Noise (ts ! m) (Name (NoiseFactors e ! j))
                  = Some (Levels (NoiseFactors e ! j)
                          ! (m div stride (NoiseFactors e) j mod length (Levels (NoiseFactors e ! j)))))))"
proof -
  let ?nfs = "NoiseFactors e"
  let ?N = "noise_count ?nfs"
  let ?rows = "OrthogonalArray e"
  from GenerateTrials_Some [OF assms]
  obtain ts where gen: "GenerateTrials e = Some ts"
    and len: "length ts = length ?rows * ?N"
    and nth: "\<forall>m < length ts. ts ! m =
           \<lparr>ID = 1 + int m, Control = the (getControlConfig e (?rows ! (m div ?N))),
            Noise = noise_combinations Map.empty ?nfs ! (m mod ?N)\<rparr>"
    by blast
  have "ID (ts ! m) = int m + 1
        \<and> getControlConfig e (?rows ! (m div ?N)) = Some (Control (ts ! m))
        \<and> Noise (ts ! m) = noise_combinations Map.empty ?nfs ! (m mod ?N)
        \<and> (distinct (map Name ?nfs) \<longrightarrow>
             (\<forall>j < length ?nfs.
                Noise (ts ! m) (Name (?nfs ! j))
                  = Some (Levels (?nfs ! j) ! (m div stride ?nfs j mod length (Levels (?nfs ! j))))))"
    if m: "m < length ts" for m
  proof -
    have eq: "ts ! m = \<lparr>ID = 1 + int m, Control = the (getControlConfig e (?rows ! (m div ?N))),
            Noise = noise_combinations Map.empty ?nfs ! (m mod ?N)\<rparr>"
      using nth m by blast
    have pos: "0 < ?N" using m len by (cases "?N = 0") auto
    have row: "m div ?N < length ?rows"
      using m len pos by (simp add: less_mult_imp_div_less mult.commute)
    then have "row_in_range (ControlFactors e) (?rows ! (m div ?N))" using assms by simp
    then obtain c where c: "getControlConfig e (?rows ! (m div ?N)) = Some c"
      using getControlConfig_Some_iff by blast
    have dig: "Noise (ts ! m) (Name (?nfs ! j))
        = Some (Levels (?nfs ! j) ! (m div stride ?nfs j mod length (Levels (?nfs ! j))))"
      if d: "distinct (map Name ?nfs)" and j: "j < length ?nfs" for j
    proof -
      have "(noise_combinations Map.empty ?nfs ! (m mod ?N)) (Name (?nfs ! j))
          = Some (Levels (?nfs ! j) ! ((m mod ?N) div stride ?nfs j mod length (Levels (?nfs ! j))))"
        using d pos j by (intro noise_combinations_digit) auto
      moreover have "(m mod ?N) div stride ?nfs j mod length (Levels (?nfs ! j))
          = m div stride ?nfs j mod length (Levels (?nfs ! j))"
        unfolding noise_count_split [OF j] by (rule digit_arith)
      ultimately show ?thesis using eq by simp
    qed
    show ?thesis using eq c dig by simp
  qed
  then show ?thesis using gen len by blast
qed

lemma two_by_six_in_range: "\<forall>row \<in> set (OrthogonalArray two_by_six). row_in_range (ControlFactors two_by_six) row"
  by (simp add: two_by_six_def row_in_range_def cell_in_range_def)

lemma two_by_six_count: "noise_count (NoiseFactors two_by_six) = 6"
  by (simp add: two_by_six_def noise_count_def)

theorem GenerateTrials_row_major_witness:
  "\<exists>ts. GenerateTrials two_by_six = Some ts \<and> length ts = 12
     \<and> ID (ts ! 7) = 8
     \<and> Control (ts ! 7) ''A'' = Some (Fin 2)
     \<and> Noise (ts ! 7) ''N'' = Some (Fin 0) \<and> Noise (ts ! 7) ''M'' = Some (Fin 6)"
proof -
  from GenerateTrials_row_major [OF two_by_six_in_range]
  obtain ts where gen: "GenerateTrials two_by_six = Some ts"
    and len: "length ts = length (OrthogonalArray two_by_six) * noise_count (NoiseFactors two_by_six)"
    and nth: "\<forall>m < length ts.
          ID (ts ! m) = int m + 1
        \<and> getControlConfig two_by_six (OrthogonalArray two_by_six ! (m div noise_count (NoiseFactors two_by_six)))
            = Some (Control (ts ! m))
        \<and> Noise (ts ! m)
            = noise_combinations Map.empty (NoiseFactors two_by_six) ! (m mod noise_count (NoiseFactors two_by_six))
        \<and> (distinct (map Name (NoiseFactors two_by_six)) \<longrightarrow>
             (\<forall>j < length (NoiseFactors two_by_six).
                Noise (ts ! m) (Name (NoiseFactors two_by_six ! j))
                  = Some (Levels (NoiseFactors two_by_six ! j)
                          ! (m div stride (NoiseFactors two_by_six) j mod length (Levels (NoiseFactors two_by_six ! j))))))"
    by blast
  have l12: "length ts = 12" using len by (simp add: two_by_six_count) (simp add: two_by_six_def)
  then have 7: "(7::nat) < length ts" by simp
  note f = nth [rule_format, OF 7]
  have id: "ID (ts ! 7) = 8" using f by simp
  have "getControlConfig two_by_six [2] = Some (Control (ts ! 7))"
    using f by (simp add: two_by_six_count) (simp add: two_by_six_def)
  moreover have "getControlConfig two_by_six [2] = Some [''A'' \<mapsto> Fin 2]"
    by (simp add: getControlConfig_def two_by_six_def index_def enumerate_eq_zip)
  ultimately have ctl: "Control (ts ! 7) ''A'' = Some (Fin 2)"
    by (metis option.inject fun_upd_same)
  have d: "distinct (map Name (NoiseFactors two_by_six))" by (simp add: two_by_six_def)
  have n0: "Noise (ts ! 7) ''N'' = Some (Fin 0)"
    using f [THEN conjunct2, THEN conjunct2, THEN conjunct2, rule_format, OF d, of 0]
    by (simp add: two_by_six_def stride_def noise_count_def numeral_2_eq_2 [symmetric] numeral_3_eq_3 [symmetric])
  have n1: "Noise (ts ! 7) ''M'' = Some (Fin 6)"
    using f [THEN conjunct2, THEN conjunct2, THEN conjunct2, rule_format, OF d, of 1]
    by (simp add: two_by_six_def stride_def noise_count_def numeral_2_eq_2 [symmetric] numeral_3_eq_3 [symmetric])
  show ?thesis using gen l12 id ctl n0 n1 by blast
qed

lemma GenerateTrials_None_iff:
  "GenerateTrials e = None \<longleftrightarrow> (\<exists>row \<in> set (OrthogonalArray e). \<not> row_in_range (ControlFactors e) row)"
proof (cases "\<forall>row \<in> set (OrthogonalArray e). row_in_range (ControlFactors e) row")
  case True
  then show ?thesis using GenerateTrials_Some [of e] by auto
next
  case False
  then show ?thesis using GenerateTrials_None [of e] by auto
qed

section \<open>Per-row reduction\<close>

lemma foldM_append:
  "foldM f (xs @ ys) s = (case foldM f xs s of None \<Rightarrow> None | Some s' \<Rightarrow> foldM f ys s')"
  by (induction xs arbitrary: s) (simp_all split: option.splits)

lemma foldM_map: "foldM (\<lambda>x. f (h x)) xs s = foldM f (map h xs) s"
  by (induction xs arbitrary: s) (simp_all split: option.splits)

lemma foldM_cong_set:
  "(\<And>x s. x \<in> set xs \<Longrightarrow> f x s = g x s) \<Longrightarrow> foldM f xs s = foldM g xs s"
  by (induction xs arbitrary: s) (simp_all split: option.splits)

text \<open>A loop that writes position i of a slice at step i and adds the written value to a sum.\<close>

lemma indexed_loop:
  assumes step: "\<And>i xs g. step i (xs, g) =
            (case v i of None \<Rightarrow> None | Some x \<Rightarrow> Some (xs[i := x], g + xs[i := x] ! i))"
    and run: "foldM step [0..<k] (xs0, g0) = Some (xs, g)"
    and k: "k \<le> length xs0"
  shows "length xs = length xs0 \<and> (\<forall>i < k. v i = Some (xs ! i))
       \<and> (\<forall>i. k \<le> i \<longrightarrow> xs ! i = xs0 ! i) \<and> g = g0 + sum_list (take k xs)"
  using run k
proof (induction k arbitrary: xs g)
  case 0
  then show ?case by simp
next
  case (Suc k)
  from Suc.prems(1) obtain xs1 g1 where
      r1: "foldM step [0..<k] (xs0, g0) = Some (xs1, g1)" and r2: "step k (xs1, g1) = Some (xs, g)"
    by (auto simp: foldM_append split: option.splits)
  have ih: "length xs1 = length xs0" "\<forall>i < k. v i = Some (xs1 ! i)"
      "\<forall>i. k \<le> i \<longrightarrow> xs1 ! i = xs0 ! i" "g1 = g0 + sum_list (take k xs1)"
    using Suc.IH [OF r1] Suc.prems(2) by auto
  from r2 obtain x where x: "v k = Some x" "xs = xs1[k := x]" "g = g1 + xs1[k := x] ! k"
    by (auto simp: step split: option.splits)
  have klt: "k < length xs1" using Suc.prems(2) ih(1) by simp
  have tk: "take (Suc k) xs = take k xs1 @ [x]"
    using klt x(2) by (simp add: take_Suc_conv_app_nth)
  have "\<forall>i < Suc k. v i = Some (xs ! i)"
    using ih(2) x klt by (auto simp: less_Suc_eq nth_list_update)
  moreover have "\<forall>i. Suc k \<le> i \<longrightarrow> xs ! i = xs0 ! i"
    using ih(3) x(2) by (auto simp: nth_list_update)
  moreover have "g = g0 + sum_list (take (Suc k) xs)"
    using ih(4) x(3) klt tk by (simp add: add.assoc)
  ultimately show ?case using ih(1) x(2) by simp
qed

lemma indexed_loop_total:
  assumes step: "\<And>i xs g. step i (xs, g) =
            (case v i of None \<Rightarrow> None | Some x \<Rightarrow> Some (xs[i := x], g + xs[i := x] ! i))"
    and v: "\<forall>i < k. v i \<noteq> None"
  shows "\<exists>r. foldM step [0..<k] (xs0, g0) = Some r"
  using v
proof (induction k)
  case 0
  then show ?case by simp
next
  case (Suc k)
  then obtain r where r: "foldM step [0..<k] (xs0, g0) = Some r" by auto
  obtain xs1 g1 where p: "r = (xs1, g1)" by (cases r)
  obtain x where "v k = Some x" using Suc.prems by auto
  then show ?case using r p by (simp add: foldM_append step)
qed

lemma computeOASNR_row_step:
  "computeOASNR_row e i (xs, g) =
     (case map_option (\<lambda>allObs. if length allObs > 0 then Goal e allObs else Fin 0) (allObs_of_row e i) of
        None \<Rightarrow> None | Some x \<Rightarrow> Some (xs[i := x], g + xs[i := x] ! i))"
  by (simp add: Let_def split: option.splits)

lemma computeOASNR_rows:
  assumes "computeOASNR e = Some (oaSNR, grandMean)"
  shows "length oaSNR = length (OrthogonalArray e)
     \<and> (\<forall>i < length (OrthogonalArray e). \<exists>allObs. allObs_of_row e i = Some allObs
            \<and> oaSNR ! i = (if allObs = [] then Fin 0 else Goal e allObs))
     \<and> grandMean = sum_list oaSNR / float64_of_int (int (length (OrthogonalArray e)))"
proof -
  let ?n = "length (OrthogonalArray e)"
  from assms obtain g where run:
      "foldM (computeOASNR_row e) [0..<?n] (replicate ?n (Fin 0), Fin 0) = Some (oaSNR, g)"
    and gm: "grandMean = g / float64_of_int (int ?n)"
    by (auto simp: computeOASNR_def Let_def bind_eq_Some_conv split: option.splits prod.splits)
  note L = indexed_loop [of "computeOASNR_row e", OF computeOASNR_row_step run]
  have "length oaSNR = ?n" using L by simp
  moreover have "g = sum_list oaSNR" using L by (simp add: float64_add_zero)
  moreover have "\<exists>allObs. allObs_of_row e i = Some allObs
            \<and> oaSNR ! i = (if allObs = [] then Fin 0 else Goal e allObs)" if "i < ?n" for i
  proof -
    from L that obtain z where "allObs_of_row e i = Some z"
        "(if length z > 0 then Goal e z else Fin 0) = oaSNR ! i"
      by auto
    then show ?thesis by (cases "z = []") auto
  qed
  ultimately show ?thesis using gm by simp
qed

lemma allObs_loop:
  assumes "foldM (allObs_step e i) rs acc = Some allObs"
  shows "allObs = acc @ concat (map Observations
           (filter (\<lambda>r. row_matches (ControlFactors e) 0 (OrthogonalArray e ! i) (Control (Trial r)) = Some True) rs))"
  using assms
proof (induction rs arbitrary: acc)
  case Nil
  then show ?case by simp
next
  case (Cons r rs)
  from Cons.prems obtain acc' where
      st: "allObs_step e i r acc = Some acc'" and rest: "foldM (allObs_step e i) rs acc' = Some allObs"
    by (auto split: option.splits)
  from st obtain m where
      m: "row_matches (ControlFactors e) 0 (OrthogonalArray e ! i) (Control (Trial r)) = Some m"
    and acc': "acc' = (if m then acc @ Observations r else acc)"
    by (auto simp: allObs_step_def bind_eq_Some_conv)
  show ?case using Cons.IH [OF rest] m acc' by (cases m) simp_all
qed

lemma allObs_of_row_pool:
  "allObs_of_row e i = Some allObs \<Longrightarrow>
     allObs = concat (map Observations
           (filter (\<lambda>r. row_matches (ControlFactors e) 0 (OrthogonalArray e ! i) (Control (Trial r)) = Some True)
              (Results e)))"
  using allObs_loop [of e i "Results e" "[]"] by (simp add: allObs_of_row_def)

lemma pooling_generic:
  "map_option fst (computeOASNR (pooling_example snrSmallerTheBetter))
     = Some [Fin (- 10 * log 10 30), Fin 0]"
  by (simp add: computeOASNR_def pooling_example_def allObs_of_row_def allObs_step_def index_def
      fne_def lookup_float_def snrSmallerTheBetter_def float64_of_len_def float64_of_int_def)

lemma pooling_legacy:
  "map_option fst (legacy_oaSNR (pooling_example SmallerTheBetter))
     = Some [Fin ((- 10 * log 10 10 + - 10 * log 10 50) / 2), Fin 0]"
  by (simp add: legacy_oaSNR_def pooling_example_def legacy_sum_count_def index_def
      fne_def lookup_float_def calculateSNR_def snrSmallerTheBetter_def float64_of_len_def
      float64_of_int_def SmallerTheBetter_def)

lemma average_differs: "(- 10 * log 10 10 + - 10 * log 10 50) / 2 \<noteq> - 10 * log 10 (30::real)"
proof -
  have a: "log 10 10 + log 10 50 = log 10 (500::real)"
    using log_mult [where a = 10 and x = 10 and y = 50] by simp
  have b: "2 * log 10 30 = log 10 (900::real)"
    using log_mult [where a = 10 and x = 30 and y = 30] by simp
  have "log 10 (500::real) < log 10 900" by (subst log_less_cancel_iff) simp_all
  then show ?thesis using a b by argo
qed


text \<open>
  C1.  The generic package pools: \<open>computeOASNR_rows\<close> and \<open>allObs_of_row_pool\<close> above show
  that \<^verbatim>\<open>computeOASNR\<close> calls the goal once per row, on the concatenation of the
  observations of the matching results.  The \<^verbatim>\<open>Analyze\<close> of the non-generic package does
  not: on the experiment of the repository's test, where the pools 2, 4 and 6, 8 belong to
  row 0, it yields the average of \<open>-10 log10 10\<close> and \<open>-10 log10 50\<close>, which differs from
  \<open>-10 log10 30\<close>, the value the generic package computes from the same data.
\<close>

theorem legacy_Analyze_averages_row_SNR:
  "map_option fst (legacy_oaSNR (pooling_example SmallerTheBetter))
     = Some [Fin ((- 10 * log 10 10 + - 10 * log 10 50) / 2), Fin 0]
   \<and> (- 10 * log 10 10 + - 10 * log 10 50) / 2 \<noteq> - 10 * log 10 (30::real)
   \<and> map_option fst (computeOASNR (pooling_example snrSmallerTheBetter))
     = Some [Fin (- 10 * log 10 30), Fin 0]"
  using pooling_legacy pooling_generic average_differs by simp

section \<open>What the analysis reads\<close>

lemma allObs_loop_agree:
  assumes "map (\<lambda>r. (Control (Trial r), Observations r)) rs
         = map (\<lambda>r. (Control (Trial r), Observations r)) rs'"
  shows "foldM (allObs_step (e\<lparr>Results := rs\<rparr>) i) rs acc
       = foldM (allObs_step (e\<lparr>Results := rs'\<rparr>) i) rs' acc"
  using assms
proof (induction rs arbitrary: rs' acc)
  case Nil
  then show ?case by simp
next
  case (Cons r rs)
  then obtain r' rs'' where rs': "rs' = r' # rs''" by (cases rs') auto
  have hd: "Control (Trial r) = Control (Trial r')" "Observations r = Observations r'"
    and tl: "map (\<lambda>r. (Control (Trial r), Observations r)) rs
           = map (\<lambda>r. (Control (Trial r), Observations r)) rs''"
    using Cons.prems rs' by auto
  have step: "allObs_step (e\<lparr>Results := r # rs\<rparr>) i r acc
            = allObs_step (e\<lparr>Results := rs'\<rparr>) i r' acc"
    using hd by (simp add: allObs_step_def split: Option.bind_split)
  have same: "allObs_step (e\<lparr>Results := xs\<rparr>) i = allObs_step (e\<lparr>Results := ys\<rparr>) i" for xs ys
    by (intro ext) (simp add: allObs_step_def)
  show ?case
    using Cons.IH [OF tl] step same [of "r # rs" rs] same [of rs' rs''] 
    by (simp add: rs' split: option.splits)
qed

lemma computeOASNR_agree:
  assumes "map (\<lambda>r. (Control (Trial r), Observations r)) rs
         = map (\<lambda>r. (Control (Trial r), Observations r)) rs'"
  shows "computeOASNR (e\<lparr>Results := rs\<rparr>) = computeOASNR (e\<lparr>Results := rs'\<rparr>)"
proof -
  have "allObs_of_row (e\<lparr>Results := rs\<rparr>) i = allObs_of_row (e\<lparr>Results := rs'\<rparr>) i" for i
    using allObs_loop_agree [OF assms] by (simp add: allObs_of_row_def)
  then have "computeOASNR_row (e\<lparr>Results := rs\<rparr>) = computeOASNR_row (e\<lparr>Results := rs'\<rparr>)"
    by (intro ext) (auto simp: Let_def split: Option.bind_split)
  then show ?thesis by (simp add: computeOASNR_def)
qed

lemma accumulate_levels_Results:
  "accumulate_levels (e\<lparr>Results := rs\<rparr>) = accumulate_levels e"
proof -
  have "accumulate_step (e\<lparr>Results := rs\<rparr>) = accumulate_step e"
    by (intro ext) (auto simp: Let_def split: Option.bind_split)
  then show ?thesis by (intro ext) (simp add: accumulate_levels_def)
qed

lemma computeANOVA_Results:
  "computeANOVA (e\<lparr>Results := rs\<rparr>) = computeANOVA e"
proof -
  have "computeANOVA_factor (e\<lparr>Results := rs\<rparr>) = computeANOVA_factor e"
    by (intro ext) (auto simp: accumulate_levels_Results Let_def split: Option.bind_split)
  then show ?thesis by (intro ext) (simp add: computeANOVA_def)
qed

lemma assemble_Results: "assemble (e\<lparr>Results := rs\<rparr>) = assemble e"
  by (intro ext) (auto simp: computeANOVA_Results findOptimalLevels_def Let_def split: Option.bind_split)

text \<open>
  C10.  Two observation logs of the same length whose results agree, position by position,
  on the control map and on the observations give the same analysis, whatever their trial
  IDs and noise maps are: the same result, or the same panic.
\<close>

theorem Analyze_reads_control_and_observations:
  assumes "map (\<lambda>r. (Control (Trial r), Observations r)) rs
         = map (\<lambda>r. (Control (Trial r), Observations r)) rs'"
  shows "Analyze (e\<lparr>Results := rs\<rparr>) ord = Analyze (e\<lparr>Results := rs'\<rparr>) ord"
  by (simp add: Analyze_def computeOASNR_agree [OF assms] assemble_Results)


theorem Analyze_reads_control_and_observations_witness:
  "Analyze ((pooling_example snrSmallerTheBetter)
        \<lparr>Results := [\<lparr>Trial = \<lparr>ID = 1, Control = [''A'' \<mapsto> Fin 1], Noise = [''N'' \<mapsto> Fin 0]\<rparr>,
                       Observations = [Fin 2, Fin 4]\<rparr>]\<rparr>) orders_A
   = Analyze ((pooling_example snrSmallerTheBetter)
        \<lparr>Results := [\<lparr>Trial = \<lparr>ID = 7, Control = [''A'' \<mapsto> Fin 1], Noise = [''N'' \<mapsto> Fin 1]\<rparr>,
                       Observations = [Fin 2, Fin 4]\<rparr>]\<rparr>) orders_A"
  using Analyze_reads_control_and_observations
    [of "[\<lparr>Trial = \<lparr>ID = 1, Control = [''A'' \<mapsto> Fin 1], Noise = [''N'' \<mapsto> Fin 0]\<rparr>,
           Observations = [Fin 2, Fin 4]\<rparr>]"
        "[\<lparr>Trial = \<lparr>ID = 7, Control = [''A'' \<mapsto> Fin 1], Noise = [''N'' \<mapsto> Fin 1]\<rparr>,
           Observations = [Fin 2, Fin 4]\<rparr>]"
        "pooling_example snrSmallerTheBetter" orders_A]
  by simp

section \<open>Contributions\<close>

lemma lookup_float_Some: "m k = Some v \<Longrightarrow> lookup_float m k = v"
  by (simp add: lookup_float_def)

lemma foldl_add_sum_list:
  "foldl (\<lambda>t k. t + g k) a ks = a + sum_list (map g ks)" for a :: float64
  by (induction ks arbitrary: a) (simp_all add: add.assoc)

lemma foldl_upd_map:
  "foldl (\<lambda>c f. c(f \<mapsto> h f)) m ks = (\<lambda>k. if k \<in> set ks then Some (h k) else m k)"
  by (induction ks arbitrary: m) (auto simp: fun_eq_iff)

lemma loop_sum_enumerates:
  assumes "enumerates ks K"
  shows "foldl (\<lambda>t k. t + g k) (Fin 0) ks = (\<Sum>k\<in>K. g k)"
proof -
  have "sum_list (map g ks) = sum g (set ks)"
    using assms by (simp add: enumerates_def sum_list_distinct_conv_sum_set)
  then show ?thesis using assms by (simp add: foldl_add_sum_list enumerates_def float64_add_zero)
qed

lemma plus_Fin_cases: "(a::float64) + b = Fin t \<Longrightarrow> \<exists>x y. a = Fin x \<and> b = Fin y \<and> t = x + y"
  by (cases a; cases b) simp_all

lemma sum_Fin_all:
  assumes "finite K" "(\<Sum>k\<in>K. g k) = Fin t"
  shows "(\<forall>k\<in>K. g k = Fin (real_of (g k))) \<and> t = (\<Sum>k\<in>K. real_of (g k))"
  using assms
proof (induction K arbitrary: t rule: finite_induct)
  case empty
  then show ?case by (simp add: zero_float64_def)
next
  case (insert a K)
  from insert.prems insert.hyps obtain x y where
      xy: "g a = Fin x" "(\<Sum>k\<in>K. g k) = Fin y" "t = x + y"
    using plus_Fin_cases [of "g a" "\<Sum>k\<in>K. g k" t] by auto
  then show ?case using insert.IH [OF xy(2)] insert.hyps by simp
qed

lemma sum_Fin: "finite K \<Longrightarrow> (\<Sum>k\<in>K. Fin (h k)) = Fin (\<Sum>k\<in>K. h k)"
  by (induction K rule: finite_induct) (simp_all add: zero_float64_def)

text \<open>
  C4.  \<open>K\<close> is the set of factors that have a sum of squares and \<open>T\<close> the sum of their sums
  of squares.  Whatever the order in which the two loops visit the map, every factor of \<open>K\<close>
  gets the contribution \<open>ss / T * 100\<close> when \<open>T\<close> is positive and 0 otherwise; when \<open>T\<close> is a
  positive number the contributions sum to exactly 100 (in exact arithmetic), and when
  \<open>T\<close> is zero every contribution is 0.
\<close>

theorem contributions_percentages:
  assumes "enumerates (totalFactorSS_order ord) (dom (FactorSS anova))"
    and "enumerates (contributions_order ord) (dom (FactorSS anova))"
  shows "let K = dom (FactorSS anova);
             ss = lookup_float (FactorSS anova);
             T = (\<Sum>f\<in>K. ss f);
             c = computeContributions anova ord
         in dom c = K
          \<and> (\<forall>f\<in>K. c f = Some (if Fin 0 < T then ss f / T * Fin 100 else Fin 0))
          \<and> (\<forall>t. T = Fin t \<and> 0 < t \<longrightarrow> (\<Sum>f\<in>K. lookup_float c f) = Fin 100)
          \<and> (T = Fin 0 \<longrightarrow> (\<forall>f\<in>K. c f = Some (Fin 0)))"
proof -
  let ?K = "dom (FactorSS anova)"
  let ?ss = "lookup_float (FactorSS anova)"
  let ?T = "\<Sum>f\<in>?K. ?ss f"
  let ?c = "computeContributions anova ord"
  have fin: "finite ?K" using assms(1) unfolding enumerates_def by (metis List.finite_set)
  have tot: "foldl (\<lambda>t k. t + ?ss k) (Fin 0) (totalFactorSS_order ord) = ?T"
    using assms(1) by (rule loop_sum_enumerates)
  have set_c: "set (contributions_order ord) = ?K" using assms(2) by (simp add: enumerates_def)
  have c: "?c = (\<lambda>k. if k \<in> ?K then Some (if Fin 0 < ?T then ?ss k / ?T * Fin 100 else Fin 0) else None)"
    unfolding computeContributions_def tot Let_def foldl_upd_map set_c by auto
  have d: "dom ?c = ?K" by (subst c) (auto simp: dom_def)
  have v: "\<forall>f\<in>?K. ?c f = Some (if Fin 0 < ?T then ?ss f / ?T * Fin 100 else Fin 0)"
    by (subst c) simp
  have s: "(\<Sum>f\<in>?K. lookup_float ?c f) = Fin 100" if T: "?T = Fin t" and t: "0 < t" for t
  proof -
    have all: "\<forall>k\<in>?K. ?ss k = Fin (real_of (?ss k))" and sum: "t = (\<Sum>k\<in>?K. real_of (?ss k))"
      using sum_Fin_all [OF fin T] by auto
    have "lookup_float ?c f = Fin (real_of (?ss f) / t * 100)" if "f \<in> ?K" for f
    proof -
      have "?c f = Some (?ss f / ?T * Fin 100)" using v that T t by simp
      then have "lookup_float ?c f = ?ss f / ?T * Fin 100" by (rule lookup_float_Some)
      moreover have "?ss f = Fin (real_of (?ss f))" using all that by blast
      then obtain x where "?ss f = Fin x" by blast
      ultimately show ?thesis using T t by simp
    qed
    then have "(\<Sum>f\<in>?K. lookup_float ?c f) = (\<Sum>f\<in>?K. Fin (real_of (?ss f) / t * 100))"
      by (intro sum.cong) auto
    also have "\<dots> = Fin (\<Sum>f\<in>?K. real_of (?ss f) / t * 100)" using fin by (rule sum_Fin)
    also have "(\<Sum>f\<in>?K. real_of (?ss f) / t * 100) = (\<Sum>f\<in>?K. real_of (?ss f)) / t * 100"
      by (simp add: sum_divide_distrib sum_distrib_right)
    also have "\<dots> = 100" using sum t by simp
    finally show ?thesis .
  qed
  have z: "\<forall>f\<in>?K. ?c f = Some (Fin 0)" if "?T = Fin 0"
    using v that by simp
  show ?thesis unfolding Let_def using d v s z by blast
qed


theorem contributions_percentages_witness:
  "computeContributions anova_AB orders_AB ''A'' = Some (Fin 25)
   \<and> computeContributions anova_AB orders_AB ''B'' = Some (Fin 75)
   \<and> (\<Sum>f\<in>{''A'', ''B''}. lookup_float (computeContributions anova_AB orders_AB) f) = Fin 100"
proof -
  have K: "dom (FactorSS anova_AB) = {''A'', ''B''}" by (auto simp: anova_AB_def)
  have e1: "enumerates (totalFactorSS_order orders_AB) (dom (FactorSS anova_AB))"
    unfolding K by (auto simp: enumerates_def orders_AB_def)
  have e2: "enumerates (contributions_order orders_AB) (dom (FactorSS anova_AB))"
    unfolding K by (auto simp: enumerates_def orders_AB_def)
  have T: "(\<Sum>f\<in>{''A'', ''B''}. lookup_float (FactorSS anova_AB) f) = Fin 4"
    by (simp add: anova_AB_def lookup_float_def)
  note th = contributions_percentages [OF e1 e2, unfolded Let_def K T]
  have a: "computeContributions anova_AB orders_AB ''A'' = Some (Fin 25)"
    using th by (simp add: anova_AB_def lookup_float_def)
  have b: "computeContributions anova_AB orders_AB ''B'' = Some (Fin 75)"
    using th by (simp add: anova_AB_def lookup_float_def)
  have c: "(\<Sum>f\<in>{''A'', ''B''}. lookup_float (computeContributions anova_AB orders_AB) f) = Fin 100"
    using th by simp
  show ?thesis using a b c by blast
qed

section \<open>The scan for the best level\<close>

lemma float64_less_trans: "(x::float64) < y \<Longrightarrow> y < z \<Longrightarrow> x < z"
  by (cases x; cases y; cases z) simp_all

lemma float64_less_irrefl: "\<not> (x::float64) < x"
  by (cases x) simp_all

lemma float64_less_asym: "(x::float64) < y \<Longrightarrow> \<not> y < x"
  by (cases x; cases y) simp_all

lemma float64_less_linear:
  "(x::float64) \<noteq> NaN \<Longrightarrow> y \<noteq> NaN \<Longrightarrow> x < y \<or> x = y \<or> y < x"
  by (cases x; cases y) auto

lemma first_max_unique: "first_max xs b \<Longrightarrow> first_max xs b' \<Longrightarrow> b = b'"
  unfolding first_max_def by (metis nat_neq_iff)

lemma best_loop:
  assumes "levels \<noteq> []" "NaN \<notin> set levels" "n \<le> length levels"
  shows "\<exists>b. foldl best_step (0, levels ! 0) (enumerate 0 (take n levels)) = (b, levels ! b)
       \<and> b < length levels \<and> (b < n \<or> b = 0)
       \<and> (\<forall>j < n. \<not> levels ! b < levels ! j) \<and> (\<forall>j < b. levels ! j < levels ! b)"
  using assms(3)
proof (induction n)
  case 0
  then show ?case using assms(1) by simp
next
  case (Suc n)
  then obtain b where b: "foldl best_step (0, levels ! 0) (enumerate 0 (take n levels)) = (b, levels ! b)"
      "b < length levels" "b < n \<or> b = 0"
      "\<forall>j < n. \<not> levels ! b < levels ! j" "\<forall>j < b. levels ! j < levels ! b"
    by auto
  have n: "n < length levels" using Suc.prems by simp
  have tk: "enumerate 0 (take (Suc n) levels) = enumerate 0 (take n levels) @ [(n, levels ! n)]"
    using n by (simp add: take_Suc_conv_app_nth enumerate_append_eq min_def)
  have nn: "levels ! j \<noteq> NaN" if "j < length levels" for j
    using assms(2) that by (metis nth_mem)
  show ?case
  proof (cases "levels ! b < levels ! n")
    case True
    have r: "foldl best_step (0, levels ! 0) (enumerate 0 (take (Suc n) levels)) = (n, levels ! n)"
      using b(1) True by (simp add: tk)
    have below: "levels ! j < levels ! n" if "j < n" for j
    proof -
      have j: "j < length levels" using that n by simp
      have "\<not> levels ! b < levels ! j" using b(4) that by simp
      then have "levels ! j < levels ! b \<or> levels ! j = levels ! b"
        using float64_less_linear [OF nn [OF j] nn [OF b(2)]] by blast
      then show ?thesis using True float64_less_trans by auto
    qed
    have "\<not> levels ! n < levels ! j" if "j < Suc n" for j
      using that below float64_less_asym float64_less_irrefl by (cases "j = n") auto
    then show ?thesis using r n below by auto
  next
    case False
    have r: "foldl best_step (0, levels ! 0) (enumerate 0 (take (Suc n) levels)) = (b, levels ! b)"
      using b(1) False by (simp add: tk)
    have "\<not> levels ! b < levels ! j" if "j < Suc n" for j
      using that b(4) False by (cases "j = n") auto
    then show ?thesis using r b by auto
  qed
qed

lemma best_level_first_max:
  assumes "levels \<noteq> []" "NaN \<notin> set levels"
  shows "\<exists>b. best_level levels = Some b \<and> first_max levels b"
proof -
  from best_loop [OF assms, of "length levels"]
  obtain b where "foldl best_step (0, levels ! 0) (enumerate 0 levels) = (b, levels ! b)"
      "b < length levels" "\<forall>j < length levels. \<not> levels ! b < levels ! j"
      "\<forall>j < b. levels ! j < levels ! b"
    by auto
  then show ?thesis using assms(1) by (simp add: best_level_def index_def first_max_def)
qed

lemma best_level_range:
  assumes "best_level levels = Some b"
  shows "levels \<noteq> [] \<and> b < length levels"
proof -
  have ne: "levels \<noteq> []" using assms by (auto simp: best_level_def index_def split: if_splits)
  have "fst (foldl best_step (b0, m) (enumerate k xs)) < max (Suc b0) (k + length xs)" for b0 m k xs
  proof (induction xs arbitrary: b0 m k)
    case Nil
    then show ?case by simp
  next
    case (Cons x xs)
    show ?case
      using Cons [of k x "Suc k"] Cons [of b0 m "Suc k"] by (auto simp: max_def split: if_splits)
  qed
  from this [of 0 "levels ! 0" 0 levels] have "fst (foldl best_step (0, levels ! 0) (enumerate 0 levels)) < length levels"
    using ne by (cases levels) (auto simp: max_def)
  then show ?thesis using assms ne by (auto simp: best_level_def index_def split: if_splits)
qed

lemma best_level_None: "best_level levels = None \<longleftrightarrow> levels = []"
  by (auto simp: best_level_def index_def)

section \<open>The loop over the control factors\<close>

lemma foldM_invariant:
  assumes "foldM f xs s0 = Some s" "P s0"
    and "\<And>x s s'. x \<in> set xs \<Longrightarrow> P s \<Longrightarrow> f x s = Some s' \<Longrightarrow> P s'"
  shows "P s"
  using assms
proof (induction xs arbitrary: s0)
  case Nil
  then show ?case by simp
next
  case (Cons x xs)
  from Cons.prems(1) obtain s1 where s1: "f x s0 = Some s1" "foldM f xs s1 = Some s"
    by (auto split: option.splits)
  have "P s1" using Cons.prems(2,3) s1(1) by auto
  then show ?case using Cons.IH [OF s1(2)] Cons.prems(3) by auto
qed

lemma foldM_total:
  assumes "P s0"
    and "\<And>x s. x \<in> set xs \<Longrightarrow> P s \<Longrightarrow> \<exists>s'. f x s = Some s' \<and> P s'"
  shows "\<exists>s. foldM f xs s0 = Some s \<and> P s"
  using assms
proof (induction xs arbitrary: s0)
  case Nil
  then show ?case by simp
next
  case (Cons x xs)
  from Cons.prems obtain s1 where s1: "f x s0 = Some s1" "P s1" by (metis list.set_intros(1))
  from Cons.IH [OF s1(2)] Cons.prems(2) obtain s where "foldM f xs s1 = Some s \<and> P s"
    by (metis list.set_intros(2))
  then show ?case using s1(1) by simp
qed

lemma find_levelIdx_total:
  "j + length fs \<le> length row \<Longrightarrow> \<exists>x. find_levelIdx fs j name row = Some x"
  by (induction fs arbitrary: j) (auto simp: index_def)

lemma accumulate_step_lengths:
  assumes "accumulate_step e f oaSNR i (lm, lc) = Some (lm', lc')"
  shows "length lm' = length lm \<and> length lc' = length lc"
  using assms by (auto simp: bind_eq_Some_conv split: if_splits)

lemma accumulate_levels_lengths:
  assumes "accumulate_levels e f oaSNR = Some (lm, lc)"
  shows "length lm = length (Levels f) \<and> length lc = length (Levels f)"
proof -
  let ?P = "\<lambda>s. length (fst s) = length (Levels f) \<and> length (snd s) = length (Levels f)"
  have "?P (lm, lc)"
  proof (rule foldM_invariant [where P = ?P, OF assms [unfolded accumulate_levels_def]])
    show "?P (replicate (length (Levels f)) (Fin 0), replicate (length (Levels f)) 0)" by simp
  next
    fix x s s'
    assume "?P s" "accumulate_step e f oaSNR x s = Some s'"
    then show "?P s'" using accumulate_step_lengths [of e f oaSNR x "fst s" "snd s" "fst s'" "snd s'"]
      by simp
  qed
  then show ?thesis by simp
qed

lemma accumulate_levels_total:
  assumes "\<forall>row \<in> set (OrthogonalArray e). length (ControlFactors e) \<le> length row"
    and "length (OrthogonalArray e) \<le> length oaSNR"
  shows "\<exists>r. accumulate_levels e f oaSNR = Some r"
proof -
  have "\<exists>s. foldM (accumulate_step e f oaSNR) [0..<length (OrthogonalArray e)]
          (replicate (length (Levels f)) (Fin 0), replicate (length (Levels f)) 0) = Some s \<and> True"
  proof (rule foldM_total [where P = "\<lambda>_. True"])
    fix i s
    assume i: "i \<in> set [0..<length (OrthogonalArray e)]"
    then have "length (ControlFactors e) \<le> length (OrthogonalArray e ! i)" using assms(1) by simp
    then obtain x where x: "find_levelIdx (ControlFactors e) 0 (Name f) (OrthogonalArray e ! i) = Some x"
      using find_levelIdx_total [of 0 "ControlFactors e" "OrthogonalArray e ! i" "Name f"] by auto
    have "index oaSNR (int i) = Some (oaSNR ! i)" using i assms(2) by (simp add: index_def)
    then show "\<exists>s'. accumulate_step e f oaSNR i s = Some s' \<and> True"
      using x by (cases s) simp
  qed simp
  then show ?thesis by (auto simp: accumulate_levels_def)
qed

lemma length_level_means: "length (level_means lm lc) = length lm"
  by (simp add: level_means_def)

text \<open>One step of the loop over the control factors.\<close>

lemma computeANOVA_factor_Some:
  assumes "computeANOVA_factor e oaSNR gm f (a, me, snr) = Some (a', me', snr')"
  shows "\<exists>lm lc. accumulate_levels e f oaSNR = Some (lm, lc)
     \<and> a' = a\<lparr>FactorSS := (FactorSS a)(Name f \<mapsto> factor_ss f (level_means lm lc) lc gm),
              FactorDF := (FactorDF a)(Name f \<mapsto> int (length (Levels f)) - 1)\<rparr>
     \<and> me' = me(Name f \<mapsto> level_means lm lc) \<and> snr' = snr(Name f \<mapsto> level_means lm lc)"
  using assms by (auto simp: bind_eq_Some_conv Let_def)

lemma factor_loop:
  assumes "foldM (computeANOVA_factor e oaSNR gm) fs (a, me, snr) = Some (a', me', snr')"
  shows "FactorMS a' = FactorMS a \<and> FactorF a' = FactorF a \<and> ErrorSS a' = ErrorSS a
       \<and> ErrorDF a' = ErrorDF a \<and> ErrorMS a' = ErrorMS a \<and> PooledFactors a' = PooledFactors a
       \<and> snr' = (\<lambda>n. if n \<in> Name ` set fs then me' n else snr n)
       \<and> (\<forall>n. n \<notin> Name ` set fs \<longrightarrow>
             FactorSS a' n = FactorSS a n \<and> FactorDF a' n = FactorDF a n \<and> me' n = me n)
       \<and> (distinct (map Name fs) \<longrightarrow> (\<forall>f \<in> set fs. \<exists>lm lc.
             accumulate_levels e f oaSNR = Some (lm, lc)
           \<and> FactorSS a' (Name f) = Some (factor_ss f (level_means lm lc) lc gm)
           \<and> FactorDF a' (Name f) = Some (int (length (Levels f)) - 1)
           \<and> me' (Name f) = Some (level_means lm lc)))"
  using assms
proof (induction fs arbitrary: a me snr)
  case Nil
  then show ?case by auto
next
  case (Cons f fs)
  from Cons.prems obtain a1 me1 snr1 where
      st: "computeANOVA_factor e oaSNR gm f (a, me, snr) = Some (a1, me1, snr1)"
    and rest: "foldM (computeANOVA_factor e oaSNR gm) fs (a1, me1, snr1) = Some (a', me', snr')"
    by (auto split: option.splits)
  from computeANOVA_factor_Some [OF st] obtain lm lc where
      acc: "accumulate_levels e f oaSNR = Some (lm, lc)"
    and a1: "a1 = a\<lparr>FactorSS := (FactorSS a)(Name f \<mapsto> factor_ss f (level_means lm lc) lc gm),
              FactorDF := (FactorDF a)(Name f \<mapsto> int (length (Levels f)) - 1)\<rparr>"
    and me1: "me1 = me(Name f \<mapsto> level_means lm lc)"
    and snr1: "snr1 = snr(Name f \<mapsto> level_means lm lc)"
    by blast
  note ih = Cons.IH [OF rest]
  have fields: "FactorMS a' = FactorMS a \<and> FactorF a' = FactorF a \<and> ErrorSS a' = ErrorSS a
       \<and> ErrorDF a' = ErrorDF a \<and> ErrorMS a' = ErrorMS a \<and> PooledFactors a' = PooledFactors a"
    using ih a1 by simp
  have other: "\<forall>n. n \<notin> Name ` set (f # fs) \<longrightarrow>
             FactorSS a' n = FactorSS a n \<and> FactorDF a' n = FactorDF a n \<and> me' n = me n"
    using ih a1 me1 by auto
  have snr: "snr' = (\<lambda>n. if n \<in> Name ` set (f # fs) then me' n else snr n)"
  proof
    fix n
    show "snr' n = (if n \<in> Name ` set (f # fs) then me' n else snr n)"
    proof (cases "n \<in> Name ` set fs")
      case True
      then show ?thesis using ih by auto
    next
      case False
      then have "snr' n = snr1 n" "me' n = me1 n" using ih by auto
      then show ?thesis using False snr1 me1 by auto
    qed
  qed
  have dist: "\<forall>g \<in> set (f # fs). \<exists>lm lc.
             accumulate_levels e g oaSNR = Some (lm, lc)
           \<and> FactorSS a' (Name g) = Some (factor_ss g (level_means lm lc) lc gm)
           \<and> FactorDF a' (Name g) = Some (int (length (Levels g)) - 1)
           \<and> me' (Name g) = Some (level_means lm lc)" if d: "distinct (map Name (f # fs))"
  proof
    fix g assume g: "g \<in> set (f # fs)"
    show "\<exists>lm lc. accumulate_levels e g oaSNR = Some (lm, lc)
           \<and> FactorSS a' (Name g) = Some (factor_ss g (level_means lm lc) lc gm)
           \<and> FactorDF a' (Name g) = Some (int (length (Levels g)) - 1)
           \<and> me' (Name g) = Some (level_means lm lc)"
    proof (cases "g \<in> set fs")
      case True
      then show ?thesis using ih d by auto
    next
      case False
      then have gf: "g = f" using g by simp
      have "Name f \<notin> Name ` set fs" using d by auto
      then have "FactorSS a' (Name f) = FactorSS a1 (Name f)" "FactorDF a' (Name f) = FactorDF a1 (Name f)"
          "me' (Name f) = me1 (Name f)"
        using ih by auto
      then show ?thesis using gf acc a1 me1 by auto
    qed
  qed
  show ?case using fields other snr dist by blast
qed

section \<open>Degrees of freedom and the error term\<close>

lemma factorMS_loop_fields:
  "FactorSS (factorMS_loop a m ks) = FactorSS a \<and> FactorDF (factorMS_loop a m ks) = FactorDF a
   \<and> ErrorSS (factorMS_loop a m ks) = ErrorSS a \<and> ErrorDF (factorMS_loop a m ks) = ErrorDF a
   \<and> ErrorMS (factorMS_loop a m ks) = ErrorMS a"
  unfolding factorMS_loop_def
  by (induction ks arbitrary: a) (simp_all add: factorMS_step_def Let_def)

lemma foldl_minus_int:
  "foldl (\<lambda>d k. d - g k) a ks = a - sum_list (map g ks)" for a :: int
  by (induction ks arbitrary: a) simp_all

lemma float64_neg_add: "- ((a::float64) + b) = - a + - b"
  by (cases a; cases b) simp_all

lemma float64_diff_diff: "((x::float64) - a) - b = x - (a + b)"
  by (simp add: minus_float64_def float64_neg_add add.assoc)

lemma foldl_minus_float64:
  "foldl (\<lambda>d k. d - g k) a ks = a - sum_list (map g ks)" for a :: float64
proof (induction ks arbitrary: a)
  case Nil
  then show ?case by (cases a) (simp_all add: minus_float64_def zero_float64_def)
next
  case (Cons k ks)
  then show ?case by (simp add: float64_diff_diff)
qed

lemma sum_list_over_names:
  fixes g :: "string \<Rightarrow> 'a::comm_monoid_add"
  assumes "distinct (map Name fs)" "enumerates ks (Name ` set fs)"
  shows "sum_list (map g ks) = (\<Sum>f\<leftarrow>fs. g (Name f))"
proof -
  have d: "distinct fs" and inj: "inj_on Name (set fs)"
    using assms(1) by (auto simp: distinct_map)
  have "sum_list (map g ks) = sum g (set ks)"
    using assms(2) by (simp add: enumerates_def sum_list_distinct_conv_sum_set)
  also have "\<dots> = sum g (Name ` set fs)" using assms(2) by (simp add: enumerates_def)
  also have "\<dots> = sum (\<lambda>f. g (Name f)) (set fs)" using inj by (simp add: sum.reindex)
  also have "\<dots> = (\<Sum>f\<leftarrow>fs. g (Name f))" using d by (simp add: sum_list_distinct_conv_sum_set)
  finally show ?thesis .
qed

lemma totalSS_of_sum: "totalSS_of oaSNR gm = (\<Sum>sn\<leftarrow>oaSNR. (sn - gm) * (sn - gm))"
  by (simp add: totalSS_of_def foldl_add_sum_list float64_add_zero)

lemma factor_loop_total:
  assumes "\<forall>row \<in> set (OrthogonalArray e). length (ControlFactors e) \<le> length row"
    and "length (OrthogonalArray e) \<le> length oaSNR"
  shows "\<exists>r. foldM (computeANOVA_factor e oaSNR gm) fs s = Some r"
proof -
  have "\<exists>r. foldM (computeANOVA_factor e oaSNR gm) fs s = Some r \<and> True"
  proof (rule foldM_total [where P = "\<lambda>_. True"])
    fix f st
    obtain lm lc where "accumulate_levels e f oaSNR = Some (lm, lc)"
      using accumulate_levels_total [OF assms, of f] by auto
    then show "\<exists>s'. computeANOVA_factor e oaSNR gm f st = Some s' \<and> True"
      by (cases st) (simp add: Let_def)
  qed simp
  then show ?thesis by blast
qed

lemma computeANOVA_unfold:
  "computeANOVA e oaSNR gm ord =
     (case foldM (computeANOVA_factor e oaSNR gm) (ControlFactors e) (anova0, Map.empty, Map.empty) of
        None \<Rightarrow> None
      | Some (a, me, snr) \<Rightarrow>
          let errorDF = errorDF_of (length (OrthogonalArray e)) a (errorDF_order ord);
              errorSS = errorSS_of (totalSS_of oaSNR gm) a (errorSS_order ord);
              errorMS = errorSS / float64_of_int errorDF
          in Some (factorMS_loop (a\<lparr>ErrorDF := errorDF, ErrorSS := errorSS, ErrorMS := errorMS\<rparr>)
                     errorMS (factorMS_order ord), me, snr))"
  by (simp add: computeANOVA_def anova0_def Let_def split: option.splits prod.splits)

text \<open>
  C3.  On an experiment with distinct factor names whose array rows have a column for
  every control factor, and for per-row values of the array's length (as both analyses
  pass), \<^verbatim>\<open>computeANOVA\<close> returns, whatever the order in which its loops visit the maps:
  every factor of \<open>k\<close> levels has \<open>k - 1\<close> degrees of freedom; the error degrees of freedom
  are (rows - 1) minus the sum of the factors' degrees of freedom, but at least 1; the
  error sum of squares is the total sum of squares minus the sum of the factors' sums of
  squares; and the error mean square is the error sum of squares divided by the error
  degrees of freedom, floor included.
\<close>

theorem computeANOVA_degrees_of_freedom_and_error:
  assumes "distinct (map Name (ControlFactors e))"
    and "valid_orders ord (Name ` set (ControlFactors e))"
    and "\<forall>row \<in> set (OrthogonalArray e). length (ControlFactors e) \<le> length row"
    and "length oaSNR = length (OrthogonalArray e)"
  shows "\<exists>anova mainEffects snrPerFactor.
       computeANOVA e oaSNR grandMean ord = Some (anova, mainEffects, snrPerFactor)
     \<and> (\<forall>f \<in> set (ControlFactors e). FactorDF anova (Name f) = Some (int (length (Levels f)) - 1))
     \<and> ErrorDF anova = max 1 (int (length (OrthogonalArray e)) - 1
                               - (\<Sum>f\<leftarrow>ControlFactors e. int (length (Levels f)) - 1))
     \<and> ErrorSS anova = (\<Sum>sn\<leftarrow>oaSNR. (sn - grandMean) * (sn - grandMean))
                        - (\<Sum>f\<leftarrow>ControlFactors e. lookup_float (FactorSS anova) (Name f))
     \<and> ErrorMS anova = ErrorSS anova / float64_of_int (ErrorDF anova)"
proof -
  let ?fs = "ControlFactors e"
  let ?n = "length (OrthogonalArray e)"
  obtain a me snr where loop:
      "foldM (computeANOVA_factor e oaSNR grandMean) ?fs (anova0, Map.empty, Map.empty) = Some (a, me, snr)"
    using factor_loop_total [OF assms(3), of oaSNR grandMean ?fs "(anova0, Map.empty, Map.empty)"] assms(4)
    by (metis order_refl prod_cases3)
  define errorDF where "errorDF = errorDF_of ?n a (errorDF_order ord)"
  define errorSS where "errorSS = errorSS_of (totalSS_of oaSNR grandMean) a (errorSS_order ord)"
  define errorMS where "errorMS = errorSS / float64_of_int errorDF"
  define anova where "anova = factorMS_loop (a\<lparr>ErrorDF := errorDF, ErrorSS := errorSS, ErrorMS := errorMS\<rparr>)
                     errorMS (factorMS_order ord)"
  have res: "computeANOVA e oaSNR grandMean ord = Some (anova, me, snr)"
    by (simp add: computeANOVA_unfold loop Let_def anova_def errorMS_def errorSS_def errorDF_def)
  note fl = factor_loop [OF loop]
  have ss_eq: "FactorSS anova = FactorSS a" and df_eq: "FactorDF anova = FactorDF a"
    and edf: "ErrorDF anova = errorDF" and ess: "ErrorSS anova = errorSS" and ems: "ErrorMS anova = errorMS"
    using factorMS_loop_fields [of "a\<lparr>ErrorDF := errorDF, ErrorSS := errorSS, ErrorMS := errorMS\<rparr>"
        errorMS "factorMS_order ord"]
    by (simp_all add: anova_def)
  have df: "\<forall>f \<in> set ?fs. FactorDF anova (Name f) = Some (int (length (Levels f)) - 1)"
    using fl assms(1) df_eq by auto
  have e1: "enumerates (errorDF_order ord) (Name ` set ?fs)"
    and e2: "enumerates (errorSS_order ord) (Name ` set ?fs)"
    using assms(2) by (simp_all add: valid_orders_def)
  have "sum_list (map (lookup_int (FactorDF a)) (errorDF_order ord))
      = (\<Sum>f\<leftarrow>?fs. lookup_int (FactorDF a) (Name f))"
    using assms(1) e1 by (rule sum_list_over_names)
  also have "\<dots> = (\<Sum>f\<leftarrow>?fs. int (length (Levels f)) - 1)"
    using df df_eq by (intro arg_cong [where f = sum_list] map_cong) (auto simp: lookup_int_def)
  finally have "errorDF = max 1 (int ?n - 1 - (\<Sum>f\<leftarrow>?fs. int (length (Levels f)) - 1))"
    by (simp add: errorDF_def errorDF_of_def foldl_minus_int Let_def max_def)
  moreover have "sum_list (map (lookup_float (FactorSS a)) (errorSS_order ord))
      = (\<Sum>f\<leftarrow>?fs. lookup_float (FactorSS a) (Name f))"
    using assms(1) e2 by (rule sum_list_over_names)
  then have "errorSS = (\<Sum>sn\<leftarrow>oaSNR. (sn - grandMean) * (sn - grandMean))
                        - (\<Sum>f\<leftarrow>?fs. lookup_float (FactorSS anova) (Name f))"
    by (simp add: errorSS_def errorSS_of_def foldl_minus_float64 totalSS_of_sum ss_eq)
  ultimately show ?thesis using res df edf ess ems errorMS_def by auto
qed


theorem computeANOVA_degrees_of_freedom_and_error_witness:
  "\<exists>anova mainEffects snrPerFactor.
       computeANOVA (pooling_example snrSmallerTheBetter) [Fin 1, Fin 3] (Fin 2) orders_A
         = Some (anova, mainEffects, snrPerFactor)
     \<and> FactorDF anova ''A'' = Some 1
     \<and> ErrorDF anova = 1
     \<and> ErrorSS anova = Fin 2 - lookup_float (FactorSS anova) ''A''
     \<and> ErrorMS anova = ErrorSS anova / Fin 1"
proof -
  let ?e = "pooling_example snrSmallerTheBetter"
  have d: "distinct (map Name (ControlFactors ?e))" by (simp add: pooling_example_def)
  have v: "valid_orders orders_A (Name ` set (ControlFactors ?e))"
    by (simp add: valid_orders_def enumerates_def orders_A_def pooling_example_def)
  have w: "\<forall>row \<in> set (OrthogonalArray ?e). length (ControlFactors ?e) \<le> length row"
    by (simp add: pooling_example_def)
  have l: "length [Fin 1, Fin 3] = length (OrthogonalArray ?e)" by (simp add: pooling_example_def)
  from computeANOVA_degrees_of_freedom_and_error [OF d v w l, of "Fin 2"]
  obtain anova mainEffects snrPerFactor where
      r: "computeANOVA ?e [Fin 1, Fin 3] (Fin 2) orders_A = Some (anova, mainEffects, snrPerFactor)"
    and df: "FactorDF anova ''A'' = Some 1"
    and edf: "ErrorDF anova = 1"
    and ess: "ErrorSS anova = Fin 2 - lookup_float (FactorSS anova) ''A''"
    and ems: "ErrorMS anova = ErrorSS anova / float64_of_int (ErrorDF anova)"
    by (auto simp: pooling_example_def minus_float64_def float64_add_zero)
  have "ErrorMS anova = ErrorSS anova / Fin 1" using ems edf by (simp add: float64_of_int_def)
  then show ?thesis using r df edf ess by blast
qed

section \<open>Optimal levels\<close>

lemma findOptimalLevels_step_Some:
  assumes "findOptimalLevels_step me f opt = Some opt'"
  shows "\<exists>b. best_level (lookup_slice me (Name f)) = Some b \<and> b < length (Levels f)
           \<and> opt' = opt(Name f \<mapsto> Levels f ! b)"
  using assms
  by (auto simp: findOptimalLevels_step_def Let_def bind_eq_Some_conv index_def split: if_splits)

lemma optimal_loop:
  assumes "foldM (findOptimalLevels_step me) fs opt = Some opt'"
  shows "(\<forall>n. n \<notin> Name ` set fs \<longrightarrow> opt' n = opt n)
       \<and> dom opt' = dom opt \<union> Name ` set fs
       \<and> (distinct (map Name fs) \<longrightarrow> (\<forall>f \<in> set fs. \<exists>b.
             best_level (lookup_slice me (Name f)) = Some b \<and> b < length (Levels f)
           \<and> opt' (Name f) = Some (Levels f ! b)))"
  using assms
proof (induction fs arbitrary: opt)
  case Nil
  then show ?case by auto
next
  case (Cons f fs)
  from Cons.prems obtain opt1 where
      st: "findOptimalLevels_step me f opt = Some opt1"
    and rest: "foldM (findOptimalLevels_step me) fs opt1 = Some opt'"
    by (auto split: option.splits)
  from findOptimalLevels_step_Some [OF st] obtain b where
      b: "best_level (lookup_slice me (Name f)) = Some b" "b < length (Levels f)"
    and opt1: "opt1 = opt(Name f \<mapsto> Levels f ! b)"
    by blast
  note ih = Cons.IH [OF rest]
  have other: "\<forall>n. n \<notin> Name ` set (f # fs) \<longrightarrow> opt' n = opt n" using ih opt1 by auto
  have d: "dom opt' = dom opt \<union> Name ` set (f # fs)" using ih opt1 by auto
  have dist: "\<forall>g \<in> set (f # fs). \<exists>b.
             best_level (lookup_slice me (Name g)) = Some b \<and> b < length (Levels g)
           \<and> opt' (Name g) = Some (Levels g ! b)" if dd: "distinct (map Name (f # fs))"
  proof
    fix g assume g: "g \<in> set (f # fs)"
    show "\<exists>b. best_level (lookup_slice me (Name g)) = Some b \<and> b < length (Levels g)
           \<and> opt' (Name g) = Some (Levels g ! b)"
    proof (cases "g \<in> set fs")
      case True
      then show ?thesis using ih dd by auto
    next
      case False
      then have gf: "g = f" using g by simp
      have "Name f \<notin> Name ` set fs" using dd by auto
      then have "opt' (Name f) = opt1 (Name f)" using ih by auto
      then show ?thesis using gf b opt1 by auto
    qed
  qed
  show ?case using other d dist by blast
qed

lemma optimal_loop_total:
  assumes "\<forall>f \<in> set fs. \<exists>b. best_level (lookup_slice me (Name f)) = Some b \<and> b < length (Levels f)"
  shows "\<exists>opt'. foldM (findOptimalLevels_step me) fs opt = Some opt'"
proof -
  have "\<exists>s. foldM (findOptimalLevels_step me) fs opt = Some s \<and> True"
  proof (rule foldM_total [where P = "\<lambda>_. True"])
    fix f s
    assume "f \<in> set fs"
    then obtain b where "best_level (lookup_slice me (Name f)) = Some b" "b < length (Levels f)"
      using assms by blast
    then show "\<exists>s'. findOptimalLevels_step me f s = Some s' \<and> True"
      by (simp add: findOptimalLevels_step_def index_def)
  qed simp
  then show ?thesis by blast
qed

lemma assemble_Some:
  assumes "assemble e ord (oaSNR, gm) = Some res"
  shows "\<exists>anova me snr opt. computeANOVA e oaSNR gm ord = Some (anova, me, snr)
       \<and> findOptimalLevels e me = Some opt
       \<and> res = \<lparr>OptimalLevels = opt, SNR = snr, MainEffects = me,
                 Contributions = computeContributions anova ord, ANOVA = anova\<rparr>"
  using assms by (auto simp: bind_eq_Some_conv Let_def)

lemma computeANOVA_main_effects:
  assumes "computeANOVA e oaSNR gm ord = Some (anova, me, snr)"
    and "distinct (map Name (ControlFactors e))"
  shows "snr = me \<and> dom me = Name ` set (ControlFactors e)
       \<and> (\<forall>f \<in> set (ControlFactors e). \<exists>lm lc. accumulate_levels e f oaSNR = Some (lm, lc)
              \<and> me (Name f) = Some (level_means lm lc)
              \<and> length (level_means lm lc) = length (Levels f))"
proof -
  from assms(1) obtain a where loop:
      "foldM (computeANOVA_factor e oaSNR gm) (ControlFactors e) (anova0, Map.empty, Map.empty)
         = Some (a, me, snr)"
    by (auto simp: computeANOVA_unfold Let_def split: option.splits)
  note fl = factor_loop [OF loop]
  have each: "\<forall>f \<in> set (ControlFactors e). \<exists>lm lc. accumulate_levels e f oaSNR = Some (lm, lc)
              \<and> me (Name f) = Some (level_means lm lc)
              \<and> length (level_means lm lc) = length (Levels f)"
  proof
    fix f assume "f \<in> set (ControlFactors e)"
    then obtain lm lc where "accumulate_levels e f oaSNR = Some (lm, lc)"
        "me (Name f) = Some (level_means lm lc)"
      using fl assms(2) by blast
    then show "\<exists>lm lc. accumulate_levels e f oaSNR = Some (lm, lc)
              \<and> me (Name f) = Some (level_means lm lc)
              \<and> length (level_means lm lc) = length (Levels f)"
      using accumulate_levels_lengths [of e f oaSNR lm lc] by (auto simp: length_level_means)
  qed
  have out: "\<forall>n. n \<notin> Name ` set (ControlFactors e) \<longrightarrow> me n = None" using fl by auto
  have d: "dom me = Name ` set (ControlFactors e)"
  proof
    show "dom me \<subseteq> Name ` set (ControlFactors e)" using out by (auto simp: dom_def)
    show "Name ` set (ControlFactors e) \<subseteq> dom me" using each by (auto simp: dom_def)
  qed
  have "snr n = me n" for n using fl out by (cases "n \<in> Name ` set (ControlFactors e)") auto
  then have "snr = me" by (rule ext)
  then show ?thesis using d each by blast
qed

lemma assemble_optimal:
  assumes "assemble e ord (oaSNR, gm) = Some res" and "distinct (map Name (ControlFactors e))"
  shows "optimal_levels_ok e res"
proof -
  from assemble_Some [OF assms(1)] obtain anova me snr opt where
      an: "computeANOVA e oaSNR gm ord = Some (anova, me, snr)"
    and fo: "findOptimalLevels e me = Some opt"
    and res: "res = \<lparr>OptimalLevels = opt, SNR = snr, MainEffects = me,
                 Contributions = computeContributions anova ord, ANOVA = anova\<rparr>"
    by blast
  note me = computeANOVA_main_effects [OF an assms(2)]
  note ol = optimal_loop [OF fo [unfolded findOptimalLevels_def]]
  have d: "dom (OptimalLevels res) = Name ` set (ControlFactors e)" using ol res by simp
  have each: "\<exists>ms b. MainEffects res (Name f) = Some ms \<and> length ms = length (Levels f)
          \<and> best_level ms = Some b \<and> b < length ms
          \<and> OptimalLevels res (Name f) = Some (Levels f ! b)
          \<and> (NaN \<notin> set ms \<longrightarrow> first_max ms b)" if f: "f \<in> set (ControlFactors e)" for f
  proof -
    from me f obtain ms where ms: "me (Name f) = Some ms" "length ms = length (Levels f)" by blast
    from ol f assms(2) obtain b where b: "best_level (lookup_slice me (Name f)) = Some b"
        "b < length (Levels f)" "opt (Name f) = Some (Levels f ! b)"
      by blast
    have sl: "lookup_slice me (Name f) = ms" using ms by (simp add: lookup_slice_def)
    have bl: "best_level ms = Some b" using b(1) sl by simp
    have ne: "ms \<noteq> []" using best_level_range [OF bl] by simp
    have "first_max ms b" if "NaN \<notin> set ms"
      using best_level_first_max [OF ne that] bl by auto
    then show ?thesis using ms bl b res by auto
  qed
  show ?thesis unfolding optimal_levels_ok_def using d each by blast
qed

lemma row_in_range_width:
  "row_in_range fs row \<Longrightarrow> length fs \<le> length row"
  by (cases "fs = []")
     (auto simp: row_in_range_def cell_in_range_def Suc_le_eq dest: spec [where x = "length fs - 1"])

lemma assemble_total:
  assumes "well_formed e" "length (OrthogonalArray e) \<le> length oaSNR"
  shows "\<exists>res. assemble e ord (oaSNR, gm) = Some res"
proof -
  have w: "\<forall>row \<in> set (OrthogonalArray e). length (ControlFactors e) \<le> length row"
    using assms(1) by (auto simp: well_formed_def row_in_range_width)
  have d: "distinct (map Name (ControlFactors e))" using assms(1) by (simp add: well_formed_def)
  obtain a me snr where loop:
      "foldM (computeANOVA_factor e oaSNR gm) (ControlFactors e) (anova0, Map.empty, Map.empty)
         = Some (a, me, snr)"
    using factor_loop_total [OF w assms(2), of gm "ControlFactors e" "(anova0, Map.empty, Map.empty)"]
    by (metis prod_cases3)
  then obtain anova where an: "computeANOVA e oaSNR gm ord = Some (anova, me, snr)"
    by (simp add: computeANOVA_unfold Let_def)
  note m = computeANOVA_main_effects [OF an d]
  have "\<exists>b. best_level (lookup_slice me (Name f)) = Some b \<and> b < length (Levels f)"
    if f: "f \<in> set (ControlFactors e)" for f
  proof -
    from m f obtain ms where ms: "me (Name f) = Some ms" "length ms = length (Levels f)" by blast
    have "Levels f \<noteq> []" using assms(1) f by (simp add: well_formed_def)
    then have "ms \<noteq> []" using ms(2) by auto
    then obtain b where b: "best_level ms = Some b"
      using best_level_None [of ms] by (cases "best_level ms") auto
    then show ?thesis using best_level_range [OF b] ms by (auto simp: lookup_slice_def)
  qed
  then obtain opt where "findOptimalLevels e me = Some opt"
    using optimal_loop_total [of "ControlFactors e" me Map.empty] by (auto simp: findOptimalLevels_def)
  then show ?thesis using an by simp
qed

lemma row_matches_total:
  "\<forall>k < length fs. cell_in_range row (j + k) (fs ! k) \<Longrightarrow> \<exists>m. row_matches fs j row ctl = Some m"
proof (induction fs arbitrary: j)
  case Nil
  show ?case by (rule exI [of _ True]) simp
next
  case (Cons f fs)
  have c: "cell_in_range row j f" using Cons.prems by (auto dest: spec [where x = 0])
  have "\<forall>k < length fs. cell_in_range row (Suc j + k) (fs ! k)"
    using Cons.prems by (auto dest: spec [where x = "Suc k" for k])
  then obtain m where "row_matches fs (Suc j) row ctl = Some m" using Cons.IH by blast
  then show ?case using c by (auto simp: index_def cell_in_range_def)
qed

lemma row_matches_in_range:
  "row_in_range fs row \<Longrightarrow> \<exists>m. row_matches fs 0 row ctl = Some m"
  using row_matches_total [of fs row 0 ctl] by (simp add: row_in_range_def)

lemma allObs_of_row_total:
  assumes "row_in_range (ControlFactors e) (OrthogonalArray e ! i)"
  shows "\<exists>allObs. allObs_of_row e i = Some allObs"
proof -
  have "\<exists>s. foldM (allObs_step e i) (Results e) [] = Some s \<and> True"
  proof (rule foldM_total [where P = "\<lambda>_. True"])
    fix r :: TrialResult and s :: "float64 list"
    obtain m where "row_matches (ControlFactors e) 0 (OrthogonalArray e ! i) (Control (Trial r)) = Some m"
      using row_matches_in_range [OF assms] by blast
    then show "\<exists>s'. allObs_step e i r s = Some s' \<and> True" by (simp add: allObs_step_def)
  qed simp
  then show ?thesis by (auto simp: allObs_of_row_def)
qed

lemma computeOASNR_total:
  assumes "\<forall>row \<in> set (OrthogonalArray e). row_in_range (ControlFactors e) row"
  shows "\<exists>oaSNR gm. computeOASNR e = Some (oaSNR, gm) \<and> length oaSNR = length (OrthogonalArray e)"
proof -
  let ?n = "length (OrthogonalArray e)"
  have "\<forall>i < ?n. map_option (\<lambda>allObs. if length allObs > 0 then Goal e allObs else Fin 0)
                    (allObs_of_row e i) \<noteq> None"
    using assms allObs_of_row_total [of e] by auto
  from indexed_loop_total [of "computeOASNR_row e", OF computeOASNR_row_step this]
  obtain r where "foldM (computeOASNR_row e) [0..<?n] (replicate ?n (Fin 0), Fin 0) = Some r"
    by blast
  then obtain oaSNR gm where "computeOASNR e = Some (oaSNR, gm)"
    by (cases r) (simp add: computeOASNR_def Let_def)
  then show ?thesis using computeOASNR_rows by blast
qed

lemma legacy_row_step:
  "legacy_row e i (xs, g) =
     (case map_option (\<lambda>(s, c). if c > 0 then s / float64_of_int c else Fin 0) (legacy_sum_count e i) of
        None \<Rightarrow> None | Some x \<Rightarrow> Some (xs[i := x], g + xs[i := x] ! i))"
  by (auto simp: Let_def split: option.splits Option.bind_split)

lemma legacy_sum_count_total:
  assumes "row_in_range (ControlFactors e) (OrthogonalArray e ! i)"
  shows "\<exists>r. legacy_sum_count e i = Some r"
proof -
  have "\<exists>s. foldM (legacy_step e i) (Results e) (Fin 0, 0) = Some s \<and> True"
  proof (rule foldM_total [where P = "\<lambda>_. True"])
    fix r :: TrialResult and s :: "float64 \<times> int"
    obtain m where "row_matches (ControlFactors e) 0 (OrthogonalArray e ! i) (Control (Trial r)) = Some m"
      using row_matches_in_range [OF assms] by blast
    then show "\<exists>s'. legacy_step e i r s = Some s' \<and> True" by (cases s) simp
  qed simp
  then show ?thesis by (auto simp: legacy_sum_count_def)
qed

lemma legacy_oaSNR_total:
  assumes "\<forall>row \<in> set (OrthogonalArray e). row_in_range (ControlFactors e) row"
  shows "\<exists>oaSNR gm. legacy_oaSNR e = Some (oaSNR, gm) \<and> length oaSNR = length (OrthogonalArray e)"
proof -
  let ?n = "length (OrthogonalArray e)"
  have "\<forall>i < ?n. map_option (\<lambda>(s, c). if c > 0 then s / float64_of_int c else Fin 0)
                    (legacy_sum_count e i) \<noteq> None"
    using assms legacy_sum_count_total [of e] by auto
  from indexed_loop_total [of "legacy_row e", OF legacy_row_step this]
  obtain r where r: "foldM (legacy_row e) [0..<?n] (replicate ?n (Fin 0), Fin 0) = Some r"
    by blast
  obtain oaSNR g where p: "r = (oaSNR, g)" by (cases r)
  have "length oaSNR = ?n"
    using indexed_loop [of "legacy_row e", OF legacy_row_step r [unfolded p]] by simp
  moreover have "legacy_oaSNR e = Some (oaSNR, g / float64_of_int (int ?n))"
    using r p by (simp add: legacy_oaSNR_def Let_def)
  ultimately show ?thesis by blast
qed

text \<open>
  C6.  On an experiment that satisfies the data model's invariants, both analyses return a
  result, and in it every declared control factor has an optimal level: the factor's own
  level value at the index that the left-to-right scan of its main effects returns, which
  is the first occurrence of the maximum (no main effect is greater, all earlier ones are
  smaller) whenever the main effects can be compared, that is, none of them is NaN.
\<close>

theorem optimal_levels_first_maximum:
  "(well_formed e \<longrightarrow> (\<exists>res. Analyze e ord = Some res \<and> optimal_levels_ok e res))
   \<and> (well_formed e' \<longrightarrow> (\<exists>res. legacy_Analyze e' ord = Some res \<and> optimal_levels_ok e' res))"
proof (intro conjI impI)
  assume w: "well_formed e"
  then obtain oaSNR gm where o: "computeOASNR e = Some (oaSNR, gm)"
      "length oaSNR = length (OrthogonalArray e)"
    using computeOASNR_total [of e] by (auto simp: well_formed_def)
  obtain res where r: "assemble e ord (oaSNR, gm) = Some res"
    using assemble_total [OF w, of oaSNR ord gm] o(2) by auto
  have "optimal_levels_ok e res" using assemble_optimal [OF r] w by (simp add: well_formed_def)
  moreover have "Analyze e ord = Some res" using o(1) r by (simp add: Analyze_def)
  ultimately show "\<exists>res. Analyze e ord = Some res \<and> optimal_levels_ok e res" by blast
next
  assume w: "well_formed e'"
  then obtain oaSNR gm where o: "legacy_oaSNR e' = Some (oaSNR, gm)"
      "length oaSNR = length (OrthogonalArray e')"
    using legacy_oaSNR_total [of e'] by (auto simp: well_formed_def)
  obtain res where r: "assemble e' ord (oaSNR, gm) = Some res"
    using assemble_total [OF w, of oaSNR ord gm] o(2) by auto
  have "optimal_levels_ok e' res" using assemble_optimal [OF r] w by (simp add: well_formed_def)
  moreover have "legacy_Analyze e' ord = Some res" using o(1) r by (simp add: legacy_Analyze_def)
  ultimately show "\<exists>res. legacy_Analyze e' ord = Some res \<and> optimal_levels_ok e' res" by blast
qed


lemma accumulate_A:
  "accumulate_levels (pooling_example g) \<lparr>Name = ''A'', Levels = [Fin 1, Fin 2]\<rparr> [x, y]
     = Some ([x, y], [1, 1])"
  by (simp add: accumulate_levels_def pooling_example_def index_def float64_add_zero)

lemma level_means_A: "level_means [Fin x, Fin y] [1, 1] = [Fin x, Fin y]"
  by (simp add: level_means_def float64_of_int_def upt_rec)

theorem optimal_levels_first_maximum_witness:
  "\<exists>res. Analyze (pooling_example snrSmallerTheBetter) orders_A = Some res
     \<and> MainEffects res ''A'' = Some [Fin (- 10 * log 10 30), Fin 0]
     \<and> OptimalLevels res ''A'' = Some (Fin 2)"
proof -
  let ?e = "pooling_example snrSmallerTheBetter"
  let ?A = "\<lparr>Name = ''A'', Levels = [Fin 1, Fin 2]\<rparr>"
  let ?ms = "[Fin (- 10 * log 10 30), Fin 0]"
  have cf: "ControlFactors ?e = [?A]" by (simp add: pooling_example_def)
  have wf: "well_formed ?e"
    by (simp add: well_formed_def pooling_example_def row_in_range_def cell_in_range_def)
  from optimal_levels_first_maximum [of ?e orders_A] wf
  obtain res where an: "Analyze ?e orders_A = Some res" and ok: "optimal_levels_ok ?e res"
    by blast
  from pooling_generic obtain gm where o: "computeOASNR ?e = Some (?ms, gm)"
    by (cases "computeOASNR ?e") auto
  have asm: "assemble ?e orders_A (?ms, gm) = Some res" using an o by (simp add: Analyze_def)
  from assemble_Some [OF asm] obtain anova me snr where
      ca: "computeANOVA ?e ?ms gm orders_A = Some (anova, me, snr)" and me: "MainEffects res = me"
    by auto
  have d: "distinct (map Name (ControlFactors ?e))" by (simp add: cf)
  from computeANOVA_main_effects [OF ca d] obtain lm lc where
      acc: "accumulate_levels ?e ?A ?ms = Some (lm, lc)" and mA: "me ''A'' = Some (level_means lm lc)"
    by (auto simp: cf)
  have "lm = ?ms" "lc = [1, 1]" using acc by (simp_all add: accumulate_A)
  then have m: "MainEffects res ''A'' = Some ?ms"
    using me mA level_means_A [of "- 10 * log 10 30" 0] by simp
  from ok obtain ms b where b: "MainEffects res ''A'' = Some ms" "NaN \<notin> set ms \<longrightarrow> first_max ms b"
      "OptimalLevels res ''A'' = Some ([Fin 1, Fin 2] ! b)"
    by (auto simp: optimal_levels_ok_def cf)
  have neg: "- 10 * log 10 (30::real) < 0" by simp
  have "first_max ?ms b" using b m by auto
  moreover have "first_max ?ms 1" using neg by (simp add: first_max_def less_Suc_eq)
  ultimately have "b = 1" by (rule first_max_unique)
  then show ?thesis using an m b(3) by simp
qed

section \<open>Construction does not look at the entries\<close>

text \<open>
  C7, as stated, fails: the constructor accepts an array whose only entry is 3 for a
  factor of two levels, and on the experiment it returns trial generation stops with an
  index out of range, as does the per-row reduction once a result is recorded.
\<close>

theorem construction_unchecked_entry:
  "NewExperimentUsingArray snrSmallerTheBetter (Inr [\<lparr>Name = ''A'', Levels = [Fin 1, Fin 2]\<rparr>]) [[3]] []
     = Inr \<lparr>ControlFactors = [\<lparr>Name = ''A'', Levels = [Fin 1, Fin 2]\<rparr>], NoiseFactors = [],
            Goal = snrSmallerTheBetter, Target = Fin 0, OrthogonalArray = [[3]], Results = [],
            PoolingThreshold = Fin 0\<rparr>
   \<and> GenerateTrials \<lparr>ControlFactors = [\<lparr>Name = ''A'', Levels = [Fin 1, Fin 2]\<rparr>], NoiseFactors = [],
            Goal = snrSmallerTheBetter, Target = Fin 0, OrthogonalArray = [[3]], Results = [],
            PoolingThreshold = Fin 0\<rparr> = None
   \<and> computeOASNR (AddResult \<lparr>ControlFactors = [\<lparr>Name = ''A'', Levels = [Fin 1, Fin 2]\<rparr>],
            NoiseFactors = [], Goal = snrSmallerTheBetter, Target = Fin 0, OrthogonalArray = [[3]],
            Results = [], PoolingThreshold = Fin 0\<rparr>
          \<lparr>ID = 1, Control = [''A'' \<mapsto> Fin 1], Noise = Map.empty\<rparr> [Fin 1]) = None"
  by (simp add: NewExperimentUsingArray_def GenerateTrials_def combineControlAndNoise_def
      getControlConfig_def index_def enumerate_eq_zip computeOASNR_def allObs_of_row_def
      allObs_step_def AddResult_def)

lemma Analyze_returns:
  assumes "well_formed e"
  shows "\<exists>res. Analyze e ord = Some res"
proof -
  obtain oaSNR gm where o: "computeOASNR e = Some (oaSNR, gm)"
      "length oaSNR = length (OrthogonalArray e)"
    using assms computeOASNR_total [of e] by (auto simp: well_formed_def)
  obtain res where "assemble e ord (oaSNR, gm) = Some res"
    using assemble_total [OF assms, of oaSNR ord gm] o(2) by auto
  then show ?thesis using o(1) by (simp add: Analyze_def)
qed

lemma in_range_has_level:
  assumes "row_in_range cfs row" "f \<in> set cfs"
  shows "Levels f \<noteq> []"
proof -
  from assms(2) obtain j where j: "j < length cfs" "cfs ! j = f" by (auto simp: in_set_conv_nth)
  then have "cell_in_range row j f" using assms(1) by (auto simp: row_in_range_def)
  then have "1 \<le> int (length (Levels f))" by (simp add: cell_in_range_def)
  then show ?thesis by auto
qed

text \<open>
  C7, amended.  Construction checks the shape of the array only: it succeeds exactly when
  the array has a row and its first row has a column for every control factor, and it
  stores the factors and the array as given, no entry looked at.  On the constructed
  experiment trial generation stops with an index out of range exactly when some row does
  not fit the control factors (a missing column, or an entry outside 1 .. level count);
  when every row fits and the factor names are distinct, the analysis returns a result
  whatever results have been recorded.
\<close>

theorem construction_checks_shape_only:
  "((\<exists>e. NewExperimentUsingArray goal (Inr cfs) oa nfs = Inr e)
       \<longleftrightarrow> (oa \<noteq> [] \<and> length cfs \<le> length (oa ! 0)))
   \<and> (\<forall>e. NewExperimentUsingArray goal (Inr cfs) oa nfs = Inr e \<longrightarrow>
         ControlFactors e = cfs \<and> OrthogonalArray e = oa
         \<and> (GenerateTrials e = None \<longleftrightarrow> (\<exists>row \<in> set oa. \<not> row_in_range cfs row))
         \<and> ((\<forall>row \<in> set oa. row_in_range cfs row) \<and> distinct (map Name cfs) \<longrightarrow>
              (\<forall>rs ord. Analyze (e\<lparr>Results := rs\<rparr>) ord \<noteq> None)))"
proof (intro conjI allI impI)
  show "(\<exists>e. NewExperimentUsingArray goal (Inr cfs) oa nfs = Inr e)
       \<longleftrightarrow> (oa \<noteq> [] \<and> length cfs \<le> length (oa ! 0))"
    by (auto simp: NewExperimentUsingArray_def)
next
  fix e assume c: "NewExperimentUsingArray goal (Inr cfs) oa nfs = Inr e"
  then have ne: "oa \<noteq> []" and cf: "ControlFactors e = cfs" and arr: "OrthogonalArray e = oa"
    by (auto simp: NewExperimentUsingArray_def split: if_splits)
  show "ControlFactors e = cfs" by (rule cf)
  show "OrthogonalArray e = oa" by (rule arr)
  show "GenerateTrials e = None \<longleftrightarrow> (\<exists>row \<in> set oa. \<not> row_in_range cfs row)"
    using cf arr by (simp add: GenerateTrials_None_iff)
  fix rs ord
  assume h: "(\<forall>row \<in> set oa. row_in_range cfs row) \<and> distinct (map Name cfs)"
  obtain row where row: "row \<in> set oa" using ne by (cases oa) auto
  have "\<forall>f \<in> set cfs. Levels f \<noteq> []"
    using h row in_range_has_level [of cfs row] by blast
  then have "well_formed (e\<lparr>Results := rs\<rparr>)"
    using h cf arr by (simp add: well_formed_def)
  then show "Analyze (e\<lparr>Results := rs\<rparr>) ord \<noteq> None"
    using Analyze_returns [of "e\<lparr>Results := rs\<rparr>" ord] by auto
qed

theorem construction_checks_shape_only_witness:
  "NewExperimentUsingArray snrSmallerTheBetter (Inr [\<lparr>Name = ''A'', Levels = [Fin 1, Fin 2]\<rparr>])
       [[1], [2]] []
     = Inr \<lparr>ControlFactors = [\<lparr>Name = ''A'', Levels = [Fin 1, Fin 2]\<rparr>], NoiseFactors = [],
            Goal = snrSmallerTheBetter, Target = Fin 0, OrthogonalArray = [[1], [2]], Results = [],
            PoolingThreshold = Fin 0\<rparr>
   \<and> GenerateTrials \<lparr>ControlFactors = [\<lparr>Name = ''A'', Levels = [Fin 1, Fin 2]\<rparr>], NoiseFactors = [],
            Goal = snrSmallerTheBetter, Target = Fin 0, OrthogonalArray = [[1], [2]], Results = [],
            PoolingThreshold = Fin 0\<rparr> \<noteq> None"
proof -
  let ?e = "\<lparr>ControlFactors = [\<lparr>Name = ''A'', Levels = [Fin 1, Fin 2]\<rparr>], NoiseFactors = [],
            Goal = snrSmallerTheBetter, Target = Fin 0, OrthogonalArray = [[1], [2]], Results = [],
            PoolingThreshold = Fin 0\<rparr>"
  have c: "NewExperimentUsingArray snrSmallerTheBetter (Inr [\<lparr>Name = ''A'', Levels = [Fin 1, Fin 2]\<rparr>])
       [[1], [2]] [] = Inr ?e"
    by (simp add: NewExperimentUsingArray_def)
  have "\<not> (\<exists>row \<in> set [[1], [2::int]]. \<not> row_in_range [\<lparr>Name = ''A'', Levels = [Fin 1, Fin 2]\<rparr>] row)"
    by (simp add: row_in_range_def cell_in_range_def)
  then have "GenerateTrials ?e \<noteq> None"
    using construction_checks_shape_only
      [of snrSmallerTheBetter "[\<lparr>Name = ''A'', Levels = [Fin 1, Fin 2]\<rparr>]" "[[1], [2]]" "[]"] c
    by blast
  then show ?thesis using c by simp
qed

end
